theory Spec2Isabelle
  imports Main "HOL-Library.Word"
begin

unbundle bit_operations_syntax

section \<open>Bytes, strings and big-endian integers\<close>

text \<open>
  A Go \<^verbatim>\<open>[]byte\<close> and a Go \<^verbatim>\<open>string\<close> are both sequences of bytes; the conversions
  between them keep the bytes. Both are lists of 8-bit words here, \<^verbatim>\<open>uint16\<close> is a
  16-bit word and \<^verbatim>\<open>uint8\<close> an 8-bit word.
\<close>

type_synonym byte = "8 word"
type_synonym bytes = "byte list"
type_synonym uint16 = "16 word"

text \<open>The string literal \<^verbatim>\<open>"octet"\<close>, as its ASCII bytes.\<close>

definition octet :: bytes where
  "octet = map of_char ''octet''"

text \<open>
  \<^verbatim>\<open>binary.Write(buf, binary.BigEndian, v)\<close> for a 16-bit \<^verbatim>\<open>v\<close> appends
  \<^verbatim>\<open>byte(v >> 8), byte(v)\<close>; \<^verbatim>\<open>binary.BigEndian.Uint16(b)\<close> is
  \<^verbatim>\<open>uint16(b[1]) | uint16(b[0])<<8\<close>.
\<close>

definition PutUint16 :: "uint16 \<Rightarrow> bytes" where
  "PutUint16 v = [ucast (drop_bit 8 v), ucast v]"

definition Uint16 :: "byte \<Rightarrow> byte \<Rightarrow> uint16" where
  "Uint16 b0 b1 = ucast b1 OR push_bit 8 (ucast b0)"

text \<open>
  The errors the codec returns: the two \<^verbatim>\<open>io\<close> errors of a short read, and one
  constructor for each \<^verbatim>\<open>fmt.Errorf\<close> message of \<^verbatim>\<open>types.go\<close>.
\<close>

datatype error =
    EOF
  | ErrUnexpectedEOF
  | InvalidRequest      \<comment> \<open>"invalid Read/Write request"\<close>
  | UnsupportedMode     \<comment> \<open>"binary (octet) is the only supported transfer"\<close>
  | InvalidData         \<comment> \<open>"invalid Data"\<close>
  | InvalidAcknowledgment  \<comment> \<open>"invalid Acknowledgment"\<close>
  | InvalidError        \<comment> \<open>"invalid Error"\<close>

text \<open>
  \<^verbatim>\<open>binary.Read(reader, binary.BigEndian, &v)\<close> for a 16-bit \<^verbatim>\<open>v\<close> reads two bytes with
  \<^verbatim>\<open>io.ReadFull\<close>: \<^verbatim>\<open>io.EOF\<close> when the reader is empty, \<^verbatim>\<open>io.ErrUnexpectedEOF\<close> when
  it holds one byte. The result is the value and what is left in the reader.
\<close>

fun binary_Read :: "bytes \<Rightarrow> error + (uint16 \<times> bytes)" where
  "binary_Read [] = Inl EOF"
| "binary_Read [b0] = Inl ErrUnexpectedEOF"
| "binary_Read (b0 # b1 # rest) = Inr (Uint16 b0 b1, rest)"

text \<open>
  \<^verbatim>\<open>(*bytes.Buffer).ReadString(delim)\<close> returns the bytes up to and including the first
  \<^verbatim>\<open>delim\<close>; without a \<^verbatim>\<open>delim\<close> it returns everything that is left, and \<^verbatim>\<open>io.EOF\<close>.
  The result is the string, the error if any, and what is left in the buffer.
\<close>

definition ReadString :: "byte \<Rightarrow> bytes \<Rightarrow> bytes \<times> error option \<times> bytes" where
  "ReadString delim b =
     (if delim \<in> set b
      then (takeWhile (\<lambda>x. x \<noteq> delim) b @ [delim], None, tl (dropWhile (\<lambda>x. x \<noteq> delim) b))
      else (b, Some EOF, []))"

text \<open>\<^verbatim>\<open>strings.TrimRight(s, "\x00")\<close> removes every trailing zero byte.\<close>

definition TrimRight0 :: "bytes \<Rightarrow> bytes" where
  "TrimRight0 s = rev (dropWhile (\<lambda>x. x = 0) (rev s))"

text \<open>
  \<^verbatim>\<open>strings.ToLower\<close> on ASCII input adds \<^verbatim>\<open>'a' - 'A'\<close> to each byte in \<^verbatim>\<open>'A'..'Z'\<close>.
  On input with a byte above 127 Go maps Unicode code points instead; no code point
  outside ASCII has one of the letters of \<^verbatim>\<open>"octet"\<close> as its lower case, so the
  comparison of the result with \<^verbatim>\<open>"octet"\<close>, the only use the program makes of it,
  is the same under the bytewise map.
\<close>

definition toLower :: "byte \<Rightarrow> byte" where
  "toLower c = (if 0x41 \<le> c \<and> c \<le> 0x5A then c + 0x20 else c)"

definition ToLower :: "bytes \<Rightarrow> bytes" where
  "ToLower s = map toLower s"

section \<open>The packet codec (types.go)\<close>

type_synonym Opcode = uint16

abbreviation (input) ReadOp :: Opcode where "ReadOp \<equiv> 1"
abbreviation (input) WriteOp :: Opcode where "WriteOp \<equiv> 2"
abbreviation (input) DataOp :: Opcode where "DataOp \<equiv> 3"
abbreviation (input) AcknowledgmentOp :: Opcode where "AcknowledgmentOp \<equiv> 4"
abbreviation (input) ErrorOp :: Opcode where "ErrorOp \<equiv> 5"

abbreviation (input) DatagramSize :: nat where "DatagramSize \<equiv> 516"
abbreviation (input) BlockSize :: nat where "BlockSize \<equiv> DatagramSize - 4"

subsection \<open>ReadWriteRequest\<close>

record ReadWriteRequest =
  Filename :: bytes
  Mode :: bytes

text \<open>
  Writes to a \<^verbatim>\<open>bytes.Buffer\<close> return no error, so the error branches of the
  marshalling functions are never taken; the result keeps the source's type.
\<close>

definition ReadWriteRequest_MarshalBinary :: "ReadWriteRequest \<Rightarrow> error + bytes" where
  "ReadWriteRequest_MarshalBinary r =
     (let mode = (if Mode r \<noteq> [] then Mode r else octet)
      in Inr (PutUint16 ReadOp @ Filename r @ [0] @ mode @ [0]))"

text \<open>
  The receiver is written field by field; a caller reads it only after a nil error, so
  the model returns the request on success and the error otherwise.
\<close>

definition ReadWriteRequest_UnmarshalBinary :: "bytes \<Rightarrow> error + ReadWriteRequest" where
  "ReadWriteRequest_UnmarshalBinary buf =
     (case binary_Read buf of
        Inl e \<Rightarrow> Inl e
      | Inr (code, reader) \<Rightarrow>
          if code \<noteq> ReadOp \<and> code \<noteq> WriteOp then Inl InvalidRequest
          else (case ReadString 0 reader of
             (_, Some _, _) \<Rightarrow> Inl InvalidRequest
           | (fname, None, reader') \<Rightarrow>
               let fname = TrimRight0 fname in
               if length fname = 0 then Inl InvalidRequest
               else (case ReadString 0 reader' of
                  (_, Some _, _) \<Rightarrow> Inl InvalidRequest
                | (mode, None, _) \<Rightarrow>
                    let mode = ToLower (TrimRight0 mode) in
                    if mode \<noteq> octet then Inl UnsupportedMode
                    else Inr \<lparr>Filename = fname, Mode = mode\<rparr>)))"

subsection \<open>Acknowledgment\<close>

record Acknowledgment =
  AckBlockNum :: uint16

definition Acknowledgment_MarshalBinary :: "Acknowledgment \<Rightarrow> error + bytes" where
  "Acknowledgment_MarshalBinary a = Inr (PutUint16 AcknowledgmentOp @ PutUint16 (AckBlockNum a))"

definition Acknowledgment_UnmarshalBinary :: "bytes \<Rightarrow> error + Acknowledgment" where
  "Acknowledgment_UnmarshalBinary buf =
     (case binary_Read buf of
        Inl e \<Rightarrow> Inl e
      | Inr (code, reader) \<Rightarrow>
          if code \<noteq> AcknowledgmentOp then Inl InvalidAcknowledgment
          else (case binary_Read reader of
             Inl e \<Rightarrow> Inl e
           | Inr (n, _) \<Rightarrow> Inr \<lparr>AckBlockNum = n\<rparr>))"

subsection \<open>Data\<close>

text \<open>
  \<^verbatim>\<open>Payload\<close> is an \<^verbatim>\<open>io.Reader\<close>; the model keeps the bytes that have not been read
  from it yet.
\<close>

record Data =
  BlockNum :: uint16
  Payload :: bytes

text \<open>
  \<^verbatim>\<open>MarshalBinary\<close> has a pointer receiver: it increments \<^verbatim>\<open>BlockNum\<close> (a \<^verbatim>\<open>uint16\<close>, so
  the increment wraps) and advances the reader. \<^verbatim>\<open>io.CopyN(buf, d.Payload, BlockSize)\<close>
  copies the next \<^verbatim>\<open>BlockSize\<close> bytes, or all that are left with \<^verbatim>\<open>io.EOF\<close>, which the
  function does not treat as an error. The result is the updated receiver and the
  packet.
\<close>

definition Data_MarshalBinary :: "Data \<Rightarrow> error + (Data \<times> bytes)" where
  "Data_MarshalBinary d =
     (let bn = BlockNum d + 1
      in Inr (\<lparr>BlockNum = bn, Payload = drop BlockSize (Payload d)\<rparr>,
              PutUint16 DataOp @ PutUint16 bn @ take BlockSize (Payload d)))"

text \<open>
  \<^verbatim>\<open>Data.UnmarshalBinary\<close> slices its argument: \<^verbatim>\<open>buf[:2]\<close>, \<^verbatim>\<open>buf[2:4]\<close>, \<^verbatim>\<open>buf[4:]\<close>.
  A slice expression \<^verbatim>\<open>s[lo:hi]\<close> on a slice panics at run time unless
  \<^verbatim>\<open>lo \<le> hi \<le> cap(s)\<close>, and \<^verbatim>\<open>s[lo:]\<close> is \<^verbatim>\<open>s[lo:len(s)]\<close>. So a slice is its
  elements together with the bytes of the backing array between its length and its
  capacity, and a call either returns or panics.
\<close>

record slice =
  elems :: bytes
  spare :: bytes

datatype 'a go = Return 'a | Panic

definition Data_UnmarshalBinary :: "slice \<Rightarrow> (error + Data) go" where
  "Data_UnmarshalBinary buf =
     (let len = length (elems buf); cap = len + length (spare buf);
          array = elems buf @ spare buf
      in if \<not> 2 \<le> cap then Panic
         else (case binary_Read (take 2 array) of
            Inl e \<Rightarrow> Return (Inl e)
          | Inr (code, _) \<Rightarrow>
              if code \<noteq> DataOp then Return (Inl InvalidData)
              else if \<not> 4 \<le> cap then Panic
              else (case binary_Read (take 2 (drop 2 array)) of
                 Inl e \<Rightarrow> Return (Inl e)
               | Inr (bn, _) \<Rightarrow>
                   if \<not> 4 \<le> len then Panic
                   else Return (Inr \<lparr>BlockNum = bn, Payload = drop 4 (elems buf)\<rparr>))))"

subsection \<open>Err\<close>

type_synonym ErrCode = uint16

abbreviation (input) ErrIllegalOp :: ErrCode where "ErrIllegalOp \<equiv> 4"

record Err =
  Code :: ErrCode
  Message :: bytes

definition Err_MarshalBinary :: "Err \<Rightarrow> error + bytes" where
  "Err_MarshalBinary e = Inr (PutUint16 ErrorOp @ PutUint16 (Code e) @ Message e @ [0])"

definition Err_UnmarshalBinary :: "bytes \<Rightarrow> error + Err" where
  "Err_UnmarshalBinary buf =
     (case binary_Read buf of
        Inl e \<Rightarrow> Inl e
      | Inr (code, reader) \<Rightarrow>
          if code \<noteq> ErrorOp then Inl InvalidError
          else (case binary_Read reader of
             Inl e \<Rightarrow> Inl e
           | Inr (c, reader') \<Rightarrow>
               (case ReadString 0 reader' of
                  (msg, Some e, _) \<Rightarrow> Inl e
                | (msg, None, _) \<Rightarrow> Inr \<lparr>Code = c, Message = TrimRight0 msg\<rparr>)))"

section \<open>The server (server.go)\<close>

text \<open>
  The server holds the payload and the retry budget (\<^verbatim>\<open>uint8\<close>); \<^verbatim>\<open>timeout\<close> is in
  nanoseconds. The listening address plays no part in what follows and is left out.
  \<^verbatim>\<open>NewTFTPServer\<close> is given the contents of the file.
\<close>

record TFTPServer =
  payload :: bytes
  retries :: "8 word"
  timeout :: nat

definition NewTFTPServer :: "bytes \<Rightarrow> TFTPServer" where
  "NewTFTPServer p = \<lparr>payload = p, retries = 10, timeout = 5 * 1000000000\<rparr>"

subsection \<open>The network, as seen by one session\<close>

text \<open>
  What the session's socket does is given from outside: whether \<^verbatim>\<open>net.Dial\<close> succeeds,
  whether a \<^verbatim>\<open>conn.Write\<close> succeeds, and what the \<^verbatim>\<open>conn.Read\<close> after it returns (the
  deadline passes, another error, or a datagram). Each is a function of the packets
  written so far, so a network can be a fixed script as well as a client that reacts to
  what it receives.
\<close>

datatype read_result = Timeout | ReadError | Datagram bytes

record network =
  Dial_ok :: bool
  Write_ok :: "bytes list \<Rightarrow> bool"
  Read_result :: "bytes list \<Rightarrow> read_result"

text \<open>
  \<^verbatim>\<open>conn.Read(buf)\<close> copies the datagram to the front of \<^verbatim>\<open>buf\<close>, cut to the length of
  \<^verbatim>\<open>buf\<close>; the bytes of \<^verbatim>\<open>buf\<close> behind it stay as they were.
\<close>

definition conn_Read :: "bytes \<Rightarrow> bytes \<Rightarrow> bytes" where
  "conn_Read buf dgram = take (length buf) dgram @ drop (length dgram) buf"

text \<open>How a session ends; \<^verbatim>\<open>Completed\<close> carries the number logged in "sent n blocks".\<close>

datatype outcome =
    Completed uint16
  | DialFailed
  | PrepareFailed error
  | WriteFailed
  | ReadFailed
  | PeerError
  | RetriesExhausted
  | Panicked

datatype flow = ContinueNextPacket | ReturnWith outcome

subsection \<open>The session: \<^verbatim>\<open>handle\<close>\<close>

text \<open>
  The inner loop \<^verbatim>\<open>RETRIES\<close>, from the value \<^verbatim>\<open>i\<close> of its counter. The state is the list
  \<^verbatim>\<open>sent\<close> of packets written so far, the reply buffer \<^verbatim>\<open>buf\<close> (allocated once, never
  cleared) and \<^verbatim>\<open>n\<close>; \<^verbatim>\<open>bn\<close> is \<^verbatim>\<open>dataM.BlockNum\<close>. The bound is \<^verbatim>\<open>int(s.retries)\<close>. A
  \<^verbatim>\<open>conn.Write\<close> that returns no error has written the whole packet and returns its
  length; a packet is added to \<^verbatim>\<open>sent\<close> when its write succeeds. The loop ends with
  \<^verbatim>\<open>continue NEXT_PACKET\<close> or with a return; leaving it by its condition runs into the
  "exhausted retries" return behind it. The branch for a reply buffer of less than two
  bytes stands for the panic of \<^verbatim>\<open>buf[:2]\<close>; \<^verbatim>\<open>handle\<close> allocates \<^verbatim>\<open>DatagramSize\<close> bytes.
\<close>

function RETRIES ::
  "TFTPServer \<Rightarrow> network \<Rightarrow> bytes \<Rightarrow> uint16 \<Rightarrow> bytes list \<Rightarrow> bytes \<Rightarrow> nat \<Rightarrow> nat
     \<Rightarrow> bytes list \<times> bytes \<times> nat \<times> flow" where
  "RETRIES s c data bn sent buf n i =
     (if i < unat (retries s) then
        if \<not> Write_ok c sent then (sent, buf, n, ReturnWith WriteFailed)
        else
          let n = length data; sent = sent @ [data] in
          (case Read_result c sent of
             Timeout \<Rightarrow> RETRIES s c data bn sent buf n (i + 1)
           | ReadError \<Rightarrow> (sent, buf, n, ReturnWith ReadFailed)
           | Datagram dgram \<Rightarrow>
               let buf = conn_Read buf dgram in
               (case buf of
                  b0 # b1 # _ \<Rightarrow>
                    let code = Uint16 b0 b1 in
                    if code = AcknowledgmentOp then
                      (case Acknowledgment_UnmarshalBinary buf of
                         Inl e \<Rightarrow> RETRIES s c data bn sent buf n (i + 1)
                       | Inr ackM \<Rightarrow>
                           if AckBlockNum ackM = bn then (sent, buf, n, ContinueNextPacket)
                           else RETRIES s c data bn sent buf n (i + 1))
                    else if code = ErrorOp then
                      (case Err_UnmarshalBinary buf of
                         Inl e \<Rightarrow> RETRIES s c data bn sent buf n (i + 1)
                       | Inr errM \<Rightarrow> (sent, buf, n, ReturnWith PeerError))
                    else RETRIES s c data bn sent buf n (i + 1)
                | _ \<Rightarrow> (sent, buf, n, ReturnWith Panicked)))
      else (sent, buf, n, ReturnWith RetriesExhausted))"
  by pat_completeness auto
termination
  by (relation "measure (\<lambda>(s, c, data, bn, sent, buf, n, i). unat (retries s) - i)") auto

declare RETRIES.simps [simp del]

lemma length_PutUint16 [simp]: "length (PutUint16 v) = 2"
  by (simp add: PutUint16_def)

lemma length_conn_Read [simp]: "length (conn_Read buf dgram) = length buf"
  by (simp add: conn_Read_def)

lemma RETRIES_exhausted:
  "\<not> i < unat (retries s) \<Longrightarrow> RETRIES s c data bn sent buf n i = (sent, buf, n, ReturnWith RetriesExhausted)"
  by (subst RETRIES.simps) simp

lemma RETRIES_write_failed:
  "i < unat (retries s) \<Longrightarrow> \<not> Write_ok c sent \<Longrightarrow>
   RETRIES s c data bn sent buf n i = (sent, buf, n, ReturnWith WriteFailed)"
  by (subst RETRIES.simps) simp

lemma RETRIES_timeout:
  "i < unat (retries s) \<Longrightarrow> Write_ok c sent \<Longrightarrow> Read_result c (sent @ [data]) = Timeout \<Longrightarrow>
   RETRIES s c data bn sent buf n i = RETRIES s c data bn (sent @ [data]) buf (length data) (i + 1)"
  by (subst RETRIES.simps) simp

lemma RETRIES_read_failed:
  "i < unat (retries s) \<Longrightarrow> Write_ok c sent \<Longrightarrow> Read_result c (sent @ [data]) = ReadError \<Longrightarrow>
   RETRIES s c data bn sent buf n i = (sent @ [data], buf, length data, ReturnWith ReadFailed)"
  by (subst RETRIES.simps) simp

lemma RETRIES_written:
  assumes "i < unat (retries s)" and True: "Write_ok c sent"
  shows "(\<exists>buf'. RETRIES s c data bn sent buf n i
                   = RETRIES s c data bn (sent @ [data]) buf' (length data) (i + 1))
       \<or> (\<exists>buf' fl. RETRIES s c data bn sent buf n i = (sent @ [data], buf', length data, fl))"
proof -
  have unf: "RETRIES s c data bn sent buf n i =
          (case Read_result c (sent @ [data]) of
             Timeout \<Rightarrow> RETRIES s c data bn (sent @ [data]) buf (length data) (i + 1)
           | ReadError \<Rightarrow> (sent @ [data], buf, length data, ReturnWith ReadFailed)
           | Datagram dgram \<Rightarrow>
               let buf = conn_Read buf dgram in
               (case buf of
                  b0 # b1 # _ \<Rightarrow>
                    let code = Uint16 b0 b1 in
                    if code = AcknowledgmentOp then
                      (case Acknowledgment_UnmarshalBinary buf of
                         Inl e \<Rightarrow> RETRIES s c data bn (sent @ [data]) buf (length data) (i + 1)
                       | Inr ackM \<Rightarrow>
                           if AckBlockNum ackM = bn then (sent @ [data], buf, length data, ContinueNextPacket)
                           else RETRIES s c data bn (sent @ [data]) buf (length data) (i + 1))
                    else if code = ErrorOp then
                      (case Err_UnmarshalBinary buf of
                         Inl e \<Rightarrow> RETRIES s c data bn (sent @ [data]) buf (length data) (i + 1)
                       | Inr errM \<Rightarrow> (sent @ [data], buf, length data, ReturnWith PeerError))
                    else RETRIES s c data bn (sent @ [data]) buf (length data) (i + 1)
                | _ \<Rightarrow> (sent @ [data], buf, length data, ReturnWith Panicked)))"
    using assms True by (subst RETRIES.simps) (simp add: Let_def)
  show ?thesis
    unfolding unf
    by (auto simp: Let_def split: read_result.split list.split sum.split)
qed

lemma RETRIES_shape:
  "RETRIES s c data bn sent buf n i = (sent', buf', n', fl) \<Longrightarrow>
   \<exists>k. sent' = sent @ replicate k data \<and> k \<le> unat (retries s) - i
      \<and> (fl = ContinueNextPacket \<longrightarrow> 0 < k \<and> n' = length data)"
proof (induction "unat (retries s) - i" arbitrary: i sent buf n)
  case 0
  then have "\<not> i < unat (retries s)" by simp
  with 0 show ?case by (auto simp: RETRIES_exhausted)
next
  case (Suc m)
  then have lt: "i < unat (retries s)" by simp
  have "\<not> Write_ok c sent \<Longrightarrow>
          RETRIES s c data bn sent buf n i = (sent, buf, n, ReturnWith WriteFailed)"
    using lt by (rule RETRIES_write_failed)
  with RETRIES_written [OF lt, of c sent "data" bn buf n]
  consider
      (wfail) "RETRIES s c data bn sent buf n i = (sent, buf, n, ReturnWith WriteFailed)"
    | (again) buf'' where "RETRIES s c data bn sent buf n i
                   = RETRIES s c data bn (sent @ [data]) buf'' (length data) (i + 1)"
    | (stop) buf'' fl' where "RETRIES s c data bn sent buf n i = (sent @ [data], buf'', length data, fl')"
    by blast
  then show ?case
  proof cases
    case wfail
    with Suc.prems show ?thesis by auto
  next
    case again
    have m: "m = unat (retries s) - (i + 1)" using Suc.hyps(2) by simp
    from again Suc.prems
    have "RETRIES s c data bn (sent @ [data]) buf'' (length data) (i + 1) = (sent', buf', n', fl)"
      by simp
    from Suc.hyps(1) [OF m this] obtain k where
      k: "sent' = (sent @ [data]) @ replicate k data" "k \<le> unat (retries s) - (i + 1)"
         "fl = ContinueNextPacket \<longrightarrow> 0 < k \<and> n' = length data"
      by blast
    have "sent' = sent @ replicate (Suc k) data"
      using k(1) by (simp add: replicate_append_same)
    moreover have "Suc k \<le> unat (retries s) - i" using k(2) lt by simp
    ultimately show ?thesis using k(3) by blast
  next
    case stop
    with Suc.prems have "sent' = sent @ replicate 1 data" "n' = length data" by simp_all
    moreover have "1 \<le> unat (retries s) - i" using lt by simp
    ultimately show ?thesis by (metis zero_less_one)
  qed
qed

lemma RETRIES_n:
  "RETRIES s c data bn sent buf n i = (sent', buf', n', ContinueNextPacket) \<Longrightarrow> n' = length data"
  using RETRIES_shape by blast

lemma NEXT_PACKET_measure:
  assumes "Data_MarshalBinary dataM = Inr (dataM', data)"
    and "RETRIES s c data bn sent buf n 0 = (sent', buf', DatagramSize, ContinueNextPacket)"
  shows "length (Payload dataM') < length (Payload dataM)"
proof -
  from assms(2) have "length data = DatagramSize"
    using RETRIES_n by metis
  moreover from assms(1)
  have "data = PutUint16 DataOp @ PutUint16 (BlockNum dataM + 1) @ take BlockSize (Payload dataM)"
    and "Payload dataM' = drop BlockSize (Payload dataM)"
    by (auto simp: Data_MarshalBinary_def Let_def)
  ultimately show ?thesis
    by (auto simp: min_def split: if_splits)
qed

text \<open>
  The outer loop \<^verbatim>\<open>NEXT_PACKET\<close>, \<^verbatim>\<open>for n == DatagramSize\<close>. Leaving it by its condition
  reaches the "sent n blocks" line.
\<close>

function NEXT_PACKET ::
  "TFTPServer \<Rightarrow> network \<Rightarrow> Data \<Rightarrow> bytes list \<Rightarrow> bytes \<Rightarrow> nat \<Rightarrow> bytes list \<times> outcome" where
  "NEXT_PACKET s c dataM sent buf n =
     (if n = DatagramSize then
        (case Data_MarshalBinary dataM of
           Inl e \<Rightarrow> (sent, PrepareFailed e)
         | Inr (dataM', data) \<Rightarrow>
             (case RETRIES s c data (BlockNum dataM') sent buf n 0 of
                (sent', buf', n', ContinueNextPacket) \<Rightarrow> NEXT_PACKET s c dataM' sent' buf' n'
              | (sent', buf', n', ReturnWith out) \<Rightarrow> (sent', out)))
      else (sent, Completed (BlockNum dataM)))"
  by pat_completeness auto
termination
  by (relation "measure (\<lambda>(s, c, dataM, sent, buf, n).
          if n = DatagramSize then Suc (length (Payload dataM)) else 0)")
     (auto dest: NEXT_PACKET_measure [OF _ sym])

declare NEXT_PACKET.simps [simp del]

definition handle :: "TFTPServer \<Rightarrow> network \<Rightarrow> bytes list \<times> outcome" where
  "handle s c =
     (if \<not> Dial_ok c then ([], DialFailed)
      else NEXT_PACKET s c \<lparr>BlockNum = 0, Payload = payload s\<rparr> []
             (replicate DatagramSize 0) DatagramSize)"

subsection \<open>The dispatcher: \<^verbatim>\<open>ListenAndServe\<close>\<close>

text \<open>
  The receive loop never ends by itself, so it is run over the results of the first
  \<^verbatim>\<open>ReadFrom\<close> calls: an error, or a datagram and its sender. Each iteration reads into a
  fresh, zeroed \<^verbatim>\<open>[DatagramSize]byte\<close> and decodes the whole array. What the loop does
  is the list of its actions: a \<^verbatim>\<open>WriteTo\<close>, or the start of a session (\<^verbatim>\<open>go s.handle\<close>).
  The result of \<^verbatim>\<open>WriteTo\<close> is not looked at.
\<close>

datatype 'addr action = WriteTo bytes 'addr | GoHandle 'addr ReadWriteRequest

fun ListenAndServe :: "(bytes \<times> 'addr) option list \<Rightarrow> 'addr action list \<times> bool" where
  "ListenAndServe [] = ([], False)"
| "ListenAndServe (None # _) = ([], True)"
| "ListenAndServe (Some (dgram, senderAddr) # reads) =
     (let buf = conn_Read (replicate DatagramSize 0) dgram;
          act = (case ReadWriteRequest_UnmarshalBinary buf of
                   Inl err \<Rightarrow> WriteTo [ucast ErrorOp, ucast ErrIllegalOp, 0] senderAddr
                 | Inr rwRequest \<Rightarrow> GoHandle senderAddr rwRequest);
          (acts, stopped) = ListenAndServe reads
      in (act # acts, stopped))"

section \<open>Properties of the codec\<close>

lemma Uint16_PutUint16: "PutUint16 v = [b0, b1] \<Longrightarrow> Uint16 b0 b1 = v"
  unfolding PutUint16_def Uint16_def
  by (auto intro!: bit_word_eqI simp: bit_simps)

lemma binary_Read_PutUint16 [simp]: "binary_Read (PutUint16 v @ rest) = Inr (v, rest)"
  using Uint16_PutUint16 [of v] by (simp add: PutUint16_def)

text \<open>
  C10. The encoding of an Acknowledgment is exactly four bytes, the opcode 4 and the
  block number, both big-endian (0, 4, high byte, low byte), and decoding these
  bytes succeeds and gives the Acknowledgment back.
\<close>

theorem Acknowledgment_roundtrip:
  "\<exists>b. Acknowledgment_MarshalBinary a = Inr b
      \<and> length b = 4
      \<and> b = [0, 4, ucast (drop_bit 8 (AckBlockNum a)), ucast (AckBlockNum a)]
      \<and> Acknowledgment_UnmarshalBinary b = Inr a"
proof -
  let ?b = "PutUint16 AcknowledgmentOp @ PutUint16 (AckBlockNum a)"
  have enc: "Acknowledgment_MarshalBinary a = Inr ?b"
    by (simp add: Acknowledgment_MarshalBinary_def)
  have bytes: "?b = [0, 4, ucast (drop_bit 8 (AckBlockNum a)), ucast (AckBlockNum a)]"
    by (simp add: PutUint16_def)
  have "Acknowledgment_UnmarshalBinary ?b = Inr \<lparr>AckBlockNum = AckBlockNum a\<rparr>"
    using binary_Read_PutUint16 [of "AckBlockNum a" "[]"]
    by (simp add: Acknowledgment_UnmarshalBinary_def)
  then have dec: "Acknowledgment_UnmarshalBinary ?b = Inr a"
    by simp
  from enc bytes dec show ?thesis
    by simp
qed

lemma octet_bytes: "octet = [0x6F, 0x63, 0x74, 0x65, 0x74]"
  by (simp add: octet_def)

lemma bit8: "bit (b1 :: 8 word) (8 + n) \<Longrightarrow> False"
  using bit_imp_le_length [of b1 "8 + n"] by simp

lemma PutUint16_Uint16: "PutUint16 (Uint16 b0 b1) = [b0, b1]"
  unfolding PutUint16_def Uint16_def
  by (auto intro!: bit_word_eqI simp: bit_simps dest: bit8)

lemma binary_Read_Inr: "binary_Read buf = Inr (code, reader) \<Longrightarrow> buf = PutUint16 code @ reader"
  by (cases buf rule: binary_Read.cases) (auto simp: PutUint16_Uint16)

lemma ReadString_found:
  assumes "d \<notin> set fn"
  shows "ReadString d (fn @ d # rest) = (fn @ [d], None, rest)"
proof -
  from assms have ne: "\<And>x. x \<in> set fn \<Longrightarrow> x \<noteq> d" by blast
  have "takeWhile (\<lambda>x. x \<noteq> d) (fn @ d # rest) = fn"
    using takeWhile_append2 [of fn "\<lambda>x. x \<noteq> d" "d # rest"] ne by simp
  moreover have "dropWhile (\<lambda>x. x \<noteq> d) (fn @ d # rest) = d # rest"
    using dropWhile_append2 [of fn "\<lambda>x. x \<noteq> d" "d # rest"] ne by simp
  ultimately show ?thesis by (simp add: ReadString_def)
qed

lemma ReadString_None:
  assumes "ReadString d b = (s, None, rest)"
  shows "\<exists>fn. d \<notin> set fn \<and> s = fn @ [d] \<and> b = fn @ d # rest"
proof -
  from assms have d: "d \<in> set b"
    by (auto simp: ReadString_def split: if_splits)
  let ?fn = "takeWhile (\<lambda>x. x \<noteq> d) b"
  from d have dw: "dropWhile (\<lambda>x. x \<noteq> d) b \<noteq> []" by (simp add: dropWhile_eq_Nil_conv)
  have "hd (dropWhile (\<lambda>x. x \<noteq> d) b) = d"
    using hd_dropWhile [OF dw] by simp
  with dw have "dropWhile (\<lambda>x. x \<noteq> d) b = d # tl (dropWhile (\<lambda>x. x \<noteq> d) b)"
    by (cases "dropWhile (\<lambda>x. x \<noteq> d) b") auto
  then have "b = ?fn @ d # tl (dropWhile (\<lambda>x. x \<noteq> d) b)"
    by (metis takeWhile_dropWhile_id)
  moreover have "d \<notin> set ?fn"
    by (auto dest: set_takeWhileD)
  moreover from assms d have "s = ?fn @ [d]" "rest = tl (dropWhile (\<lambda>x. x \<noteq> d) b)"
    by (auto simp: ReadString_def)
  ultimately show ?thesis by blast
qed

lemma ReadString_Some: "ReadString d b = (s, Some e, rest) \<Longrightarrow> d \<notin> set b"
  by (auto simp: ReadString_def split: if_splits)

lemma TrimRight0_snoc: "0 \<notin> set fn \<Longrightarrow> TrimRight0 (fn @ [0]) = fn"
  by (cases fn rule: rev_cases) (auto simp: TrimRight0_def)

lemma ToLower_octet_nonzero: "ToLower m = octet \<Longrightarrow> 0 \<notin> set m"
proof
  assume a: "ToLower m = octet" and "0 \<in> set m"
  then have "toLower 0 \<in> toLower ` set m" by blast
  also have "toLower ` set m = set (ToLower m)" by (simp add: ToLower_def)
  finally have "toLower 0 \<in> set octet" using a by simp
  then show False by (simp add: octet_bytes toLower_def)
qed

lemma ToLower_Nil [simp]: "ToLower m = [] \<longleftrightarrow> m = []"
  by (simp add: ToLower_def)

lemma UnmarshalBinary_layout:
  assumes "0 \<notin> set fname" "0 \<notin> set mode"
  shows "ReadWriteRequest_UnmarshalBinary (PutUint16 code @ fname @ [0] @ mode @ [0] @ rest) =
     (if code \<noteq> ReadOp \<and> code \<noteq> WriteOp then Inl InvalidRequest
      else if fname = [] then Inl InvalidRequest
      else if ToLower mode \<noteq> octet then Inl UnsupportedMode
      else Inr \<lparr>Filename = fname, Mode = octet\<rparr>)"
  using assms
  by (simp add: ReadWriteRequest_UnmarshalBinary_def ReadString_found TrimRight0_snoc)

text \<open>
  C5. Decoding a request succeeds exactly on the buffers made of an opcode Read or
  Write, a non-empty filename ended by its first zero byte, and a mode ended by the
  next zero byte that is "octet" once lowercased; the result is that filename with the
  mode "octet". On every other buffer it fails: another opcode, an empty filename,
  another mode, and also a buffer that ends before one of the two zero bytes.
\<close>

theorem decodeRequest_cases:
  "ReadWriteRequest_UnmarshalBinary buf = Inr r \<longleftrightarrow>
     (\<exists>code fname mode rest.
        buf = PutUint16 code @ fname @ [0] @ mode @ [0] @ rest
      \<and> (code = ReadOp \<or> code = WriteOp)
      \<and> 0 \<notin> set fname \<and> fname \<noteq> []
      \<and> 0 \<notin> set mode \<and> ToLower mode = octet
      \<and> r = \<lparr>Filename = fname, Mode = octet\<rparr>)"
proof
  assume ok: "ReadWriteRequest_UnmarshalBinary buf = Inr r"
  then obtain code reader where rd: "binary_Read buf = Inr (code, reader)"
    by (auto simp: ReadWriteRequest_UnmarshalBinary_def split: sum.splits)
  with ok have code: "code = ReadOp \<or> code = WriteOp"
    by (auto simp: ReadWriteRequest_UnmarshalBinary_def split: if_splits)
  with ok rd obtain s1 reader' where r1: "ReadString 0 reader = (s1, None, reader')"
    by (auto simp: ReadWriteRequest_UnmarshalBinary_def split: if_splits prod.splits option.splits)
  then obtain fname where fn: "0 \<notin> set fname" "s1 = fname @ [0]" "reader = fname @ 0 # reader'"
    using ReadString_None by blast
  from ok rd code r1 fn have ne: "fname \<noteq> []"
    by (auto simp: ReadWriteRequest_UnmarshalBinary_def TrimRight0_snoc split: if_splits)
  with ok rd code r1 fn obtain s2 rest where r2: "ReadString 0 reader' = (s2, None, rest)"
    by (auto simp: ReadWriteRequest_UnmarshalBinary_def TrimRight0_snoc Let_def
             split: if_splits prod.splits option.splits)
  then obtain mode where md: "0 \<notin> set mode" "s2 = mode @ [0]" "reader' = mode @ 0 # rest"
    using ReadString_None by blast
  have buf: "buf = PutUint16 code @ fname @ [0] @ mode @ [0] @ rest"
    using binary_Read_Inr [OF rd] fn(3) md(3) by simp
  from ok have "(if ToLower mode \<noteq> octet then Inl UnsupportedMode
      else Inr \<lparr>Filename = fname, Mode = octet\<rparr>) = Inr r"
    unfolding buf UnmarshalBinary_layout [OF fn(1) md(1)] using code ne by (simp split: if_splits)
  then have "ToLower mode = octet" "r = \<lparr>Filename = fname, Mode = octet\<rparr>"
    by (auto split: if_splits)
  with buf code fn(1) ne md(1) show "\<exists>code fname mode rest.
        buf = PutUint16 code @ fname @ [0] @ mode @ [0] @ rest
      \<and> (code = ReadOp \<or> code = WriteOp)
      \<and> 0 \<notin> set fname \<and> fname \<noteq> []
      \<and> 0 \<notin> set mode \<and> ToLower mode = octet
      \<and> r = \<lparr>Filename = fname, Mode = octet\<rparr>"
    by blast
next
  assume "\<exists>code fname mode rest.
        buf = PutUint16 code @ fname @ [0] @ mode @ [0] @ rest
      \<and> (code = ReadOp \<or> code = WriteOp)
      \<and> 0 \<notin> set fname \<and> fname \<noteq> []
      \<and> 0 \<notin> set mode \<and> ToLower mode = octet
      \<and> r = \<lparr>Filename = fname, Mode = octet\<rparr>"
  then show "ReadWriteRequest_UnmarshalBinary buf = Inr r"
    using UnmarshalBinary_layout by auto
qed


theorem decodeRequest_cases_witness:
  "ReadWriteRequest_UnmarshalBinary
      (PutUint16 ReadOp @ [0x61] @ [0] @ [0x4F, 0x43, 0x54, 0x45, 0x54] @ [0] @ [0, 0])
     = Inr \<lparr>Filename = [0x61], Mode = octet\<rparr>"
proof -
  have "\<exists>code fname mode rest.
        PutUint16 ReadOp @ [0x61] @ [0] @ [0x4F, 0x43, 0x54, 0x45, 0x54] @ [0] @ [0, 0]
          = PutUint16 code @ fname @ [0] @ mode @ [0] @ rest
      \<and> (code = ReadOp \<or> code = WriteOp)
      \<and> 0 \<notin> set fname \<and> fname \<noteq> []
      \<and> 0 \<notin> set mode \<and> ToLower mode = octet
      \<and> \<lparr>Filename = [0x61], Mode = octet\<rparr> = \<lparr>Filename = fname, Mode = octet\<rparr>"
    apply (rule exI [of _ ReadOp])
    apply (rule exI [of _ "[0x61]"])
    apply (rule exI [of _ "[0x4F, 0x43, 0x54, 0x45, 0x54]"])
    apply (rule exI [of _ "[0, 0]"])
    apply (simp add: ToLower_def toLower_def octet_bytes)
    done
  then show ?thesis
    by (rule decodeRequest_cases [THEN iffD2])
qed

lemma ToLower_octet [simp]: "ToLower octet = octet"
  by (simp add: ToLower_def toLower_def octet_bytes)


text \<open>
  C4, as amended. For every request whose filename is not empty and holds no zero byte,
  and whose mode is unset or is "octet" up to the case of its letters, the encoding
  decodes again, to the same filename with the mode "octet".
\<close>

theorem Request_roundtrip:
  assumes "Filename r \<noteq> []" and "0 \<notin> set (Filename r)"
    and "Mode r = [] \<or> ToLower (Mode r) = octet"
  shows "\<exists>b. ReadWriteRequest_MarshalBinary r = Inr b
           \<and> ReadWriteRequest_UnmarshalBinary b = Inr \<lparr>Filename = Filename r, Mode = octet\<rparr>"
proof -
  let ?mode = "if Mode r \<noteq> [] then Mode r else octet"
  let ?b = "PutUint16 ReadOp @ Filename r @ [0] @ ?mode @ [0] @ []"
  have enc: "ReadWriteRequest_MarshalBinary r = Inr ?b"
    by (simp add: ReadWriteRequest_MarshalBinary_def)
  from assms(3) have low: "ToLower ?mode = octet"
    by auto
  then have "0 \<notin> set ?mode"
    by (rule ToLower_octet_nonzero)
  from UnmarshalBinary_layout [OF assms(2) this, of ReadOp "[]"] assms(1) low
  have "ReadWriteRequest_UnmarshalBinary ?b = Inr \<lparr>Filename = Filename r, Mode = octet\<rparr>"
    by simp
  with enc show ?thesis by blast
qed



theorem Request_roundtrip_witness:
  "ReadWriteRequest_MarshalBinary \<lparr>Filename = [0x61], Mode = [0x4F, 0x43, 0x54, 0x45, 0x54]\<rparr>
     = Inr [0, 1, 0x61, 0, 0x4F, 0x43, 0x54, 0x45, 0x54, 0]
   \<and> ReadWriteRequest_UnmarshalBinary [0, 1, 0x61, 0, 0x4F, 0x43, 0x54, 0x45, 0x54, 0]
     = Inr \<lparr>Filename = [0x61], Mode = octet\<rparr>"
proof -
  let ?r = "\<lparr>Filename = [0x61], Mode = [0x4F, 0x43, 0x54, 0x45, 0x54]\<rparr>"
  have enc: "ReadWriteRequest_MarshalBinary ?r = Inr [0, 1, 0x61, 0, 0x4F, 0x43, 0x54, 0x45, 0x54, 0]"
    by (simp add: ReadWriteRequest_MarshalBinary_def PutUint16_def)
  have "Filename ?r \<noteq> []" "0 \<notin> set (Filename ?r)" "Mode ?r = [] \<or> ToLower (Mode ?r) = octet"
    by (simp_all add: ToLower_def toLower_def octet_bytes)
  from Request_roundtrip [OF this] enc show ?thesis
    by simp
qed



text \<open>
  The claim without the condition on zero bytes fails: the filename "a\0" is not
  empty and the mode is "octet", but in the encoding the filename ends at its own zero
  byte, the decoder takes the empty string before the next zero byte as the mode, and
  rejects the packet.
\<close>

theorem Request_roundtrip_counterexample:
  "Filename \<lparr>Filename = [0x61, 0], Mode = octet\<rparr> \<noteq> []
   \<and> ToLower (Mode \<lparr>Filename = [0x61, 0], Mode = octet\<rparr>) = octet
   \<and> ReadWriteRequest_MarshalBinary \<lparr>Filename = [0x61, 0], Mode = octet\<rparr>
       = Inr ([0, 1, 0x61, 0, 0] @ octet @ [0])
   \<and> ReadWriteRequest_UnmarshalBinary ([0, 1, 0x61, 0, 0] @ octet @ [0]) = Inl UnsupportedMode"
  by (simp add: ReadWriteRequest_MarshalBinary_def ReadWriteRequest_UnmarshalBinary_def
        PutUint16_def Uint16_def ReadString_def TrimRight0_def ToLower_def toLower_def octet_bytes)

text \<open>
  C9. Decoding a Data packet is not total on short buffers: on the empty buffer the
  expression \<^verbatim>\<open>buf[:2]\<close> is out of range, and on the three bytes 0, 3, 0 (the Data
  opcode and half a block number) \<^verbatim>\<open>buf[2:4]\<close> is out of range, or \<^verbatim>\<open>buf[4:]\<close> when the
  slice has capacity to spare. Each call panics instead of returning an error.
\<close>

theorem Data_UnmarshalBinary_short_panics:
  "Data_UnmarshalBinary \<lparr>elems = [], spare = []\<rparr> = Panic
   \<and> Data_UnmarshalBinary \<lparr>elems = [0, 3, 0], spare = []\<rparr> = Panic
   \<and> Data_UnmarshalBinary \<lparr>elems = [0, 3, 0], spare = replicate 513 0\<rparr> = Panic"
  by (simp add: Data_UnmarshalBinary_def Uint16_def)

text \<open>
  C2. On a datagram of three bytes that is no request, the dispatcher answers once and
  goes on, but with the three bytes 5, 4, 0. They are not an Error packet: the decoder
  of Error packets reads the opcode 0x0504 and rejects them, while the encoding of the
  Error with code IllegalOperation and the empty message is the five bytes 0, 5, 0, 4, 0.
\<close>

theorem ListenAndServe_bad_request_reply:
  "ListenAndServe [Some ([1, 2, 3], 0 :: nat)] = ([WriteTo [5, 4, 0] 0], False)
   \<and> Err_UnmarshalBinary [5, 4, 0] = Inl InvalidError
   \<and> Err_MarshalBinary \<lparr>Code = ErrIllegalOp, Message = []\<rparr> = Inr [0, 5, 0, 4, 0]"
  by (simp add: conn_Read_def ReadWriteRequest_UnmarshalBinary_def Err_UnmarshalBinary_def
        Err_MarshalBinary_def PutUint16_def Uint16_def)

section \<open>Properties of the session\<close>

subsection \<open>One attempt of the inner loop\<close>

lemma RETRIES_reply:
  assumes "i < unat (retries s)" and "Write_ok c sent"
    and "Read_result c (sent @ [data]) = Datagram dgram"
    and "conn_Read buf dgram = b0 # b1 # rest"
  shows "RETRIES s c data bn sent buf n i =
     (if Uint16 b0 b1 = AcknowledgmentOp then
        (case Acknowledgment_UnmarshalBinary (b0 # b1 # rest) of
           Inl e \<Rightarrow> RETRIES s c data bn (sent @ [data]) (b0 # b1 # rest) (length data) (i + 1)
         | Inr ackM \<Rightarrow>
             if AckBlockNum ackM = bn
             then (sent @ [data], b0 # b1 # rest, length data, ContinueNextPacket)
             else RETRIES s c data bn (sent @ [data]) (b0 # b1 # rest) (length data) (i + 1))
      else if Uint16 b0 b1 = ErrorOp then
        (case Err_UnmarshalBinary (b0 # b1 # rest) of
           Inl e \<Rightarrow> RETRIES s c data bn (sent @ [data]) (b0 # b1 # rest) (length data) (i + 1)
         | Inr errM \<Rightarrow> (sent @ [data], b0 # b1 # rest, length data, ReturnWith PeerError))
      else RETRIES s c data bn (sent @ [data]) (b0 # b1 # rest) (length data) (i + 1))"
  using assms by (subst RETRIES.simps) (simp add: Let_def)

lemma conn_Read_cons2:
  assumes "2 \<le> length buf"
  obtains b0 b1 rest where "conn_Read buf dgram = b0 # b1 # rest"
proof -
  have "2 \<le> length (conn_Read buf dgram)" using assms by simp
  then show ?thesis
    by (cases "conn_Read buf dgram" rule: binary_Read.cases) (auto intro: that)
qed

lemma Acknowledgment_UnmarshalBinary_Inr:
  "Acknowledgment_UnmarshalBinary (b0 # b1 # rest) = Inr a \<Longrightarrow> Uint16 b0 b1 = AcknowledgmentOp"
  by (auto simp: Acknowledgment_UnmarshalBinary_def split: if_splits sum.splits)

lemma Err_UnmarshalBinary_Inr:
  "Err_UnmarshalBinary (b0 # b1 # rest) = Inr a \<Longrightarrow> Uint16 b0 b1 = ErrorOp"
  by (auto simp: Err_UnmarshalBinary_def split: if_splits sum.splits)

lemma RETRIES_undecodable:
  assumes "i < unat (retries s)" and "Write_ok c sent"
    and "Read_result c (sent @ [data]) = Datagram dgram"
    and "2 \<le> length buf"
    and "Acknowledgment_UnmarshalBinary (conn_Read buf dgram) = Inl e1"
    and "Err_UnmarshalBinary (conn_Read buf dgram) = Inl e2"
  shows "RETRIES s c data bn sent buf n i =
         RETRIES s c data bn (sent @ [data]) (conn_Read buf dgram) (length data) (i + 1)"
proof -
  obtain b0 b1 rest where b: "conn_Read buf dgram = b0 # b1 # rest"
    using conn_Read_cons2 [OF assms(4)] by blast
  show ?thesis
    unfolding RETRIES_reply [OF assms(1-3) b] using assms(5,6) b by simp
qed

lemma conn_Read_ack:
  "4 \<le> length buf \<Longrightarrow>
   conn_Read buf (PutUint16 AcknowledgmentOp @ PutUint16 k) = PutUint16 AcknowledgmentOp @ PutUint16 k @ drop 4 buf"
  by (simp add: conn_Read_def)

lemma Acknowledgment_UnmarshalBinary_ack:
  "Acknowledgment_UnmarshalBinary (PutUint16 AcknowledgmentOp @ PutUint16 k @ rest) = Inr \<lparr>AckBlockNum = k\<rparr>"
  by (simp add: Acknowledgment_UnmarshalBinary_def)

lemma RETRIES_ack:
  assumes "i < unat (retries s)" and "Write_ok c sent"
    and "Read_result c (sent @ [data]) = Datagram (PutUint16 AcknowledgmentOp @ PutUint16 k)"
    and "4 \<le> length buf"
  shows "RETRIES s c data bn sent buf n i =
     (if k = bn
      then (sent @ [data], PutUint16 AcknowledgmentOp @ PutUint16 k @ drop 4 buf, length data,
            ContinueNextPacket)
      else RETRIES s c data bn (sent @ [data])
             (PutUint16 AcknowledgmentOp @ PutUint16 k @ drop 4 buf) (length data) (i + 1))"
proof -
  let ?buf = "PutUint16 AcknowledgmentOp @ PutUint16 k @ drop 4 buf"
  have rd: "conn_Read buf (PutUint16 AcknowledgmentOp @ PutUint16 k) = ?buf"
    using assms(4) by (rule conn_Read_ack)
  obtain b0 b1 rest where b: "?buf = b0 # b1 # rest"
    by (simp add: PutUint16_def)
  have op: "Uint16 b0 b1 = AcknowledgmentOp"
    using Acknowledgment_UnmarshalBinary_ack [of k "drop 4 buf"] b
    by (auto dest: Acknowledgment_UnmarshalBinary_Inr)
  have dec: "Acknowledgment_UnmarshalBinary (b0 # b1 # rest) = Inr \<lparr>AckBlockNum = k\<rparr>"
    using Acknowledgment_UnmarshalBinary_ack [of k "drop 4 buf"] b by simp
  show ?thesis
    unfolding RETRIES_reply [OF assms(1-3) rd [unfolded b]] b using op dec by simp
qed

lemma RETRIES_silent:
  assumes "\<And>k. Write_ok c (sent @ replicate k data)"
    and "\<And>k. Read_result c (sent @ replicate (Suc k) data) = Timeout"
  shows "i < unat (retries s) \<Longrightarrow> RETRIES s c data bn (sent @ replicate j data) buf n i =
     (sent @ replicate (j + (unat (retries s) - i)) data, buf, length data, ReturnWith RetriesExhausted)"
proof (induction "unat (retries s) - i" arbitrary: i j n)
  case 0
  then show ?case by simp
next
  case (Suc m)
  have step: "RETRIES s c data bn (sent @ replicate j data) buf n i =
      RETRIES s c data bn (sent @ replicate (Suc j) data) buf (length data) (i + 1)"
    using RETRIES_timeout [of i s c "sent @ replicate j data" "data" bn buf n]
      Suc.prems assms(1) [of j] assms(2) [of j]
    by (simp add: replicate_append_same)
  show ?case
  proof (cases "i + 1 < unat (retries s)")
    case True
    have "m = unat (retries s) - (i + 1)" using Suc.hyps(2) by simp
    from Suc.hyps(1) [OF this True, of "Suc j" "length data"]
    have ih: "RETRIES s c data bn (sent @ replicate (Suc j) data) buf (length data) (i + 1) =
      (sent @ replicate (Suc j + (unat (retries s) - (i + 1))) data, buf, length data,
       ReturnWith RetriesExhausted)" .
    have "Suc j + (unat (retries s) - (i + 1)) = j + (unat (retries s) - i)"
      using Suc.prems by simp
    with ih step show ?thesis by (simp only:)
  next
    case False
    with Suc.prems have one: "j + (unat (retries s) - i) = Suc j" by simp
    from False have "RETRIES s c data bn (sent @ replicate (Suc j) data) buf (length data) (i + 1) =
      (sent @ replicate (Suc j) data, buf, length data, ReturnWith RetriesExhausted)"
      by (rule RETRIES_exhausted)
    with step one show ?thesis by (simp only:)
  qed
qed

subsection \<open>The outer loop\<close>

lemma Data_MarshalBinary_eq:
  "Data_MarshalBinary d =
     Inr (\<lparr>BlockNum = BlockNum d + 1, Payload = drop BlockSize (Payload d)\<rparr>,
          PutUint16 DataOp @ PutUint16 (BlockNum d + 1) @ take BlockSize (Payload d))"
  by (simp add: Data_MarshalBinary_def Let_def)

lemma NEXT_PACKET_done:
  "n \<noteq> DatagramSize \<Longrightarrow> NEXT_PACKET s c dataM sent buf n = (sent, Completed (BlockNum dataM))"
  by (subst NEXT_PACKET.simps) simp

lemma NEXT_PACKET_step:
  assumes "Data_MarshalBinary dataM = Inr (dataM', data)"
    and "RETRIES s c data (BlockNum dataM') sent buf DatagramSize 0 = (sent', buf', n', fl)"
  shows "NEXT_PACKET s c dataM sent buf DatagramSize =
     (case fl of
        ContinueNextPacket \<Rightarrow> NEXT_PACKET s c dataM' sent' buf' n'
      | ReturnWith out \<Rightarrow> (sent', out))"
  using assms by (subst NEXT_PACKET.simps) (simp split: flow.split)

lemma RETRIES_silent_flow:
  assumes "\<And>k. Read_result c (sent @ replicate (Suc k) data) = Timeout"
  shows "RETRIES s c data bn (sent @ replicate j data) buf n i = (sent', buf', n', fl) \<Longrightarrow>
         fl = ReturnWith RetriesExhausted \<or> fl = ReturnWith WriteFailed"
proof (induction "unat (retries s) - i" arbitrary: i j n)
  case 0
  then have "\<not> i < unat (retries s)" by simp
  with 0 show ?case by (auto simp: RETRIES_exhausted)
next
  case (Suc m)
  then have lt: "i < unat (retries s)" by simp
  show ?case
  proof (cases "Write_ok c (sent @ replicate j data)")
    case False
    with lt Suc.prems show ?thesis by (auto simp: RETRIES_write_failed)
  next
    case True
    have "RETRIES s c data bn (sent @ replicate j data) buf n i =
      RETRIES s c data bn (sent @ replicate (Suc j) data) buf (length data) (i + 1)"
      using RETRIES_timeout [of i s c "sent @ replicate j data" "data" bn buf n]
        lt True assms [of j]
      by (simp add: replicate_append_same)
    with Suc.prems
    have "RETRIES s c data bn (sent @ replicate (Suc j) data) buf (length data) (i + 1)
            = (sent', buf', n', fl)"
      by simp
    moreover have "m = unat (retries s) - (i + 1)" using Suc.hyps(2) by simp
    ultimately show ?thesis using Suc.hyps(1) by blast
  qed
qed

lemma unat_retries_New [simp]: "unat (retries (NewTFTPServer p)) = 10"
  by (simp add: NewTFTPServer_def)

text \<open>
  C6. At the start of any block of any session, whatever was sent before: if every read
  from then on runs into its deadline, the session writes this block at most
  \<^verbatim>\<open>retries\<close> times and nothing else, and ends without completing (retries exhausted, or
  a failed write); when the writes succeed it writes the block exactly \<^verbatim>\<open>retries\<close> times
  and ends with "exhausted retries". The count starts anew with each block, since the
  statement holds at every block whatever the attempts spent on the blocks before.
\<close>

theorem unresponsive_client:
  assumes m: "Data_MarshalBinary dataM = Inr (dataM', data)"
    and silent: "\<And>p ext. Read_result c (sent @ p # ext) = Timeout"
  shows "\<exists>k out. NEXT_PACKET s c dataM sent buf DatagramSize = (sent @ replicate k data, out)
           \<and> k \<le> unat (retries s)
           \<and> (out = RetriesExhausted \<or> out = WriteFailed)
           \<and> ((\<forall>ext. Write_ok c (sent @ ext)) \<longrightarrow> k = unat (retries s) \<and> out = RetriesExhausted)"
proof -
  have to: "\<And>k. Read_result c (sent @ replicate (Suc k) data) = Timeout"
    using silent by simp
  obtain sent' buf' n' fl where
    r: "RETRIES s c data (BlockNum dataM') sent buf DatagramSize 0 = (sent', buf', n', fl)"
    by (metis prod_cases4)
  obtain k where k: "sent' = sent @ replicate k data" "k \<le> unat (retries s)"
    using RETRIES_shape [OF r] by auto
  from RETRIES_silent_flow [OF to, where j = 0 and s = s and bn = "BlockNum dataM'"
      and buf = buf and n = DatagramSize and i = 0] r
  have "fl = ReturnWith RetriesExhausted \<or> fl = ReturnWith WriteFailed"
    by simp
  then obtain out where out: "fl = ReturnWith out" "out = RetriesExhausted \<or> out = WriteFailed"
    by blast
  have np: "NEXT_PACKET s c dataM sent buf DatagramSize = (sent @ replicate k data, out)"
    using NEXT_PACKET_step [OF m r] out(1) k(1) by simp
  have "k = unat (retries s) \<and> out = RetriesExhausted" if w: "\<forall>ext. Write_ok c (sent @ ext)"
  proof (cases "0 < unat (retries s)")
    case True
    from w have w': "\<And>k. Write_ok c (sent @ replicate k data)" by blast
    from RETRIES_silent [OF w' to True, where j = 0 and bn = "BlockNum dataM'"
        and buf = buf and n = DatagramSize] r k(1) out(1)
    show ?thesis by simp
  next
    case False
    with r k(1) out(1) show ?thesis by (simp add: RETRIES_exhausted)
  qed
  with np k(2) out(2) show ?thesis by blast
qed

text \<open>
  With the default budget of 10: a client that lets the first block time out twice,
  acknowledges it, and is silent from then on gets the first block three times and the
  second block ten times.
\<close>

theorem unresponsive_client_witness:
  "handle (NewTFTPServer (replicate 512 0))
      \<lparr>Dial_ok = True, Write_ok = \<lambda>sent. True,
       Read_result = \<lambda>sent. if length sent = 3 then Datagram [0, 4, 0, 1] else Timeout\<rparr>
   = (replicate 3 ([0, 3, 0, 1] @ replicate 512 0) @ replicate 10 [0, 3, 0, 2], RetriesExhausted)"
proof -
  let ?s = "NewTFTPServer (replicate 512 0)"
  let ?c = "\<lparr>Dial_ok = True, Write_ok = \<lambda>sent. True,
       Read_result = \<lambda>sent. if length sent = 3 then Datagram [0, 4, 0, 1] else Timeout\<rparr>"
  let ?d1 = "[0, 3, 0, 1] @ replicate 512 (0 :: byte)"
  let ?buf0 = "replicate 516 (0 :: byte)"
  let ?buf1 = "PutUint16 AcknowledgmentOp @ PutUint16 1 @ drop 4 ?buf0"
  have m1: "Data_MarshalBinary \<lparr>BlockNum = 0, Payload = replicate 512 0\<rparr>
              = Inr (\<lparr>BlockNum = 1, Payload = []\<rparr>, ?d1)"
    by (simp add: Data_MarshalBinary_eq PutUint16_def)
  have m2: "Data_MarshalBinary \<lparr>BlockNum = 1, Payload = []\<rparr>
              = Inr (\<lparr>BlockNum = 2, Payload = []\<rparr>, [0, 3, 0, 2])"
    by (simp add: Data_MarshalBinary_eq PutUint16_def)
  have a1: "RETRIES ?s ?c ?d1 1 [] ?buf0 516 0 = RETRIES ?s ?c ?d1 1 [?d1] ?buf0 516 (Suc 0)"
    using RETRIES_timeout [of 0 ?s ?c "[]" ?d1 1 ?buf0 516] by simp
  have a2: "RETRIES ?s ?c ?d1 1 [?d1] ?buf0 516 (Suc 0)
              = RETRIES ?s ?c ?d1 1 [?d1, ?d1] ?buf0 516 (Suc (Suc 0))"
    using RETRIES_timeout [of "Suc 0" ?s ?c "[?d1]" ?d1 1 ?buf0 516] by simp
  have a3: "RETRIES ?s ?c ?d1 1 [?d1, ?d1] ?buf0 516 (Suc (Suc 0))
              = ([?d1, ?d1, ?d1], ?buf1, 516, ContinueNextPacket)"
    using RETRIES_ack [of "Suc (Suc 0)" ?s ?c "[?d1, ?d1]" ?d1 1 ?buf0 1 516]
    by (simp add: PutUint16_def)
  have r1: "RETRIES ?s ?c ?d1 (BlockNum \<lparr>BlockNum = 1, Payload = []\<rparr>) [] ?buf0 516 0
              = ([?d1, ?d1, ?d1], ?buf1, 516, ContinueNextPacket)"
    using a1 a2 a3 by simp
  have n1: "NEXT_PACKET ?s ?c \<lparr>BlockNum = 0, Payload = replicate 512 0\<rparr> [] ?buf0 516
              = NEXT_PACKET ?s ?c \<lparr>BlockNum = 1, Payload = []\<rparr> [?d1, ?d1, ?d1] ?buf1 516"
    using NEXT_PACKET_step [OF m1 r1] by simp
  have silent: "\<And>p ext. Read_result ?c ([?d1, ?d1, ?d1] @ p # ext) = Timeout"
    by simp
  from unresponsive_client [OF m2 silent, of ?s ?buf1]
  have "NEXT_PACKET ?s ?c \<lparr>BlockNum = 1, Payload = []\<rparr> [?d1, ?d1, ?d1] ?buf1 516
          = ([?d1, ?d1, ?d1] @ replicate 10 [0, 3, 0, 2], RetriesExhausted)"
    by auto
  with n1 show ?thesis
    by (simp add: handle_def NewTFTPServer_def numeral_3_eq_3)
qed

subsection \<open>Replies that are not the awaited acknowledgment\<close>

lemma RETRIES_first_write:
  assumes "i < unat (retries s)" and "Write_ok c sent"
  shows "\<exists>rest. fst (RETRIES s c data bn sent buf n i) = sent @ data # rest"
proof -
  from RETRIES_written [OF assms, of "data" bn buf n]
  consider
      (again) buf' where "RETRIES s c data bn sent buf n i
                   = RETRIES s c data bn (sent @ [data]) buf' (length data) (i + 1)"
    | (stop) buf' fl where "RETRIES s c data bn sent buf n i = (sent @ [data], buf', length data, fl)"
    by blast
  then show ?thesis
  proof cases
    case again
    obtain sent' b' n' fl where
      r: "RETRIES s c data bn (sent @ [data]) buf' (length data) (i + 1) = (sent', b', n', fl)"
      by (metis prod_cases4)
    from RETRIES_shape [OF r] obtain k where "sent' = (sent @ [data]) @ replicate k data"
      by blast
    with again r show ?thesis by simp
  next
    case stop
    then show ?thesis by simp
  qed
qed

lemma Suc4: "Suc (Suc (Suc (Suc 0))) = 4"
  by simp

text \<open>
  C7, as amended. In a session that awaits the acknowledgment of its current block
  (attempt \<^verbatim>\<open>i\<close> of the budget, the block written), an Acknowledgment with another
  block number uses up exactly this attempt: the loop goes on at attempt \<^verbatim>\<open>i + 1\<close> with
  the same packet and the same block number, and no new block is encoded. If an attempt
  is left (and the write succeeds) the same packet is written again; if none is left
  the session ends with "exhausted retries" and nothing is written after the
  acknowledgment.
\<close>

theorem mismatched_ack:
  assumes "i < unat (retries s)" and "Write_ok c sent" and "length buf = DatagramSize"
    and "Acknowledgment_MarshalBinary \<lparr>AckBlockNum = k\<rparr> = Inr ack"
    and "Read_result c (sent @ [data]) = Datagram ack"
    and "k \<noteq> bn"
  shows "RETRIES s c data bn sent buf n i
           = RETRIES s c data bn (sent @ [data]) (conn_Read buf ack) (length data) (i + 1)
       \<and> (i + 1 < unat (retries s) \<and> Write_ok c (sent @ [data]) \<longrightarrow>
            (\<exists>rest. fst (RETRIES s c data bn sent buf n i) = sent @ [data, data] @ rest))
       \<and> (\<not> i + 1 < unat (retries s) \<longrightarrow>
            RETRIES s c data bn sent buf n i
              = (sent @ [data], conn_Read buf ack, length data, ReturnWith RetriesExhausted))"
proof -
  from assms(4) have ack: "ack = PutUint16 AcknowledgmentOp @ PutUint16 k"
    by (simp add: Acknowledgment_MarshalBinary_def)
  from assms(3) have len: "4 \<le> length buf" by simp
  have step: "RETRIES s c data bn sent buf n i
           = RETRIES s c data bn (sent @ [data]) (conn_Read buf ack) (length data) (i + 1)"
    using RETRIES_ack [OF assms(1,2) assms(5) [unfolded ack] len, of bn n] assms(6)
    by (simp add: ack conn_Read_ack [OF len])
  have "\<exists>rest. fst (RETRIES s c data bn sent buf n i) = sent @ [data, data] @ rest"
    if "i + 1 < unat (retries s)" "Write_ok c (sent @ [data])"
    using RETRIES_first_write [OF that, of "data" bn "conn_Read buf ack" "length data"] step
    by simp
  moreover have "RETRIES s c data bn sent buf n i
              = (sent @ [data], conn_Read buf ack, length data, ReturnWith RetriesExhausted)"
    if "\<not> i + 1 < unat (retries s)"
    using step RETRIES_exhausted [OF that] by simp
  ultimately show ?thesis using step by blast
qed

theorem mismatched_ack_witness:
  "RETRIES (NewTFTPServer []) \<lparr>Dial_ok = True, Write_ok = \<lambda>sent. True,
       Read_result = \<lambda>sent. if length sent = 1 then Datagram [0, 4, 0, 0] else ReadError\<rparr>
     [0, 3, 0, 1] 1 [] (replicate 516 0) 516 0
   = ([[0, 3, 0, 1], [0, 3, 0, 1]], [0, 4, 0, 0] @ replicate 512 0, 4, ReturnWith ReadFailed)"
proof -
  let ?s = "NewTFTPServer []"
  let ?c = "\<lparr>Dial_ok = True, Write_ok = \<lambda>sent. True,
       Read_result = \<lambda>sent. if length sent = 1 then Datagram [0, 4, 0, 0] else ReadError\<rparr>"
  let ?d = "[0, 3, 0, 1] :: bytes"
  have "RETRIES ?s ?c ?d 1 [] (replicate 516 0) 516 0
      = RETRIES ?s ?c ?d 1 ([] @ [?d]) (conn_Read (replicate 516 0) [0, 4, 0, 0]) (length ?d) (0 + 1)"
    using mismatched_ack [of 0 ?s ?c "[]" "replicate 516 0" 0 "[0, 4, 0, 0]" ?d 1 516]
    by (simp add: Acknowledgment_MarshalBinary_def PutUint16_def)
  also have "\<dots> = ([?d, ?d], [0, 4, 0, 0] @ replicate 512 0, 4, ReturnWith ReadFailed)"
    using RETRIES_read_failed [of "Suc 0" ?s ?c "[?d]" ?d 1 "[0, 4, 0, 0] @ replicate 512 0" 4]
    by (simp add: conn_Read_def Suc4)
  finally show ?thesis .
qed

text \<open>
  The claim without the condition on the budget fails at the last attempt: with the
  default budget of 10, after nine writes of block 1, the tenth write is answered by an
  Acknowledgment of block 0; the packet is not written an eleventh time, the session
  ends.
\<close>

theorem mismatched_ack_counterexample:
  "9 < unat (retries (NewTFTPServer []))
   \<and> Acknowledgment_MarshalBinary \<lparr>AckBlockNum = 0\<rparr> = Inr [0, 4, 0, 0]
   \<and> RETRIES (NewTFTPServer []) \<lparr>Dial_ok = True, Write_ok = \<lambda>sent. True,
         Read_result = \<lambda>sent. Datagram [0, 4, 0, 0]\<rparr>
       [0, 3, 0, 1] 1 (replicate 9 [0, 3, 0, 1]) (replicate 516 0) 4 9
     = (replicate 9 [0, 3, 0, 1] @ [[0, 3, 0, 1]], [0, 4, 0, 0] @ replicate 512 0, 4,
        ReturnWith RetriesExhausted)"
proof -
  let ?s = "NewTFTPServer []"
  let ?c = "\<lparr>Dial_ok = True, Write_ok = \<lambda>sent. True,
       Read_result = \<lambda>sent. Datagram [0, 4, 0, 0]\<rparr>"
  let ?d = "[0, 3, 0, 1] :: bytes"
  have "RETRIES ?s ?c ?d 1 (replicate 9 ?d) (replicate 516 0) 4 9
      = RETRIES ?s ?c ?d 1 (replicate 9 ?d @ [?d]) ([0, 4, 0, 0] @ replicate 512 0) 4 10"
    using RETRIES_ack [of 9 ?s ?c "replicate 9 ?d" ?d 0 "replicate 516 0" 1 4]
    by (simp add: PutUint16_def Suc4)
  also have "\<dots> = (replicate 9 ?d @ [?d], [0, 4, 0, 0] @ replicate 512 0, 4, ReturnWith RetriesExhausted)"
    by (rule RETRIES_exhausted) simp
  finally show ?thesis
    by (simp add: Acknowledgment_MarshalBinary_def PutUint16_def del: replicate_Suc)
qed

lemma conn_Read_front:
  assumes "2 \<le> length buf"
  shows "\<exists>rest'. conn_Read buf (b0 # b1 # rest) = b0 # b1 # rest'"
  using assms by (cases buf rule: binary_Read.cases) (simp_all add: conn_Read_def)

text \<open>
  C3, as amended. In a session that awaits the acknowledgment of its current block, a
  failed read that is not a timeout ends the session at once, with nothing written
  after it. A reply of two bytes or more whose opcode is neither Acknowledgment nor
  Error does not end it: it uses up the attempt like a timeout, the same packet is
  written again if an attempt is left, and with the budget used up the session ends,
  with "exhausted retries".
\<close>

theorem unknown_opcode_reply:
  assumes "i < unat (retries s)" and "Write_ok c sent" and "length buf = DatagramSize"
  shows "(Read_result c (sent @ [data]) = ReadError \<longrightarrow>
            RETRIES s c data bn sent buf n i = (sent @ [data], buf, length data, ReturnWith ReadFailed))
       \<and> (\<forall>b0 b1 rest. Read_result c (sent @ [data]) = Datagram (b0 # b1 # rest)
              \<and> Uint16 b0 b1 \<noteq> AcknowledgmentOp \<and> Uint16 b0 b1 \<noteq> ErrorOp \<longrightarrow>
            RETRIES s c data bn sent buf n i
              = RETRIES s c data bn (sent @ [data]) (conn_Read buf (b0 # b1 # rest))
                  (length data) (i + 1)
            \<and> (i + 1 < unat (retries s) \<and> Write_ok c (sent @ [data]) \<longrightarrow>
                 (\<exists>more. fst (RETRIES s c data bn sent buf n i) = sent @ [data, data] @ more))
            \<and> (\<not> i + 1 < unat (retries s) \<longrightarrow>
                 RETRIES s c data bn sent buf n i
                   = (sent @ [data], conn_Read buf (b0 # b1 # rest), length data,
                      ReturnWith RetriesExhausted)))"
proof (intro conjI allI impI)
  assume "Read_result c (sent @ [data]) = ReadError"
  with assms(1,2) show "RETRIES s c data bn sent buf n i
      = (sent @ [data], buf, length data, ReturnWith ReadFailed)"
    by (rule RETRIES_read_failed)
next
  fix b0 b1 rest
  assume a: "Read_result c (sent @ [data]) = Datagram (b0 # b1 # rest)
              \<and> Uint16 b0 b1 \<noteq> AcknowledgmentOp \<and> Uint16 b0 b1 \<noteq> ErrorOp"
  let ?buf = "conn_Read buf (b0 # b1 # rest)"
  from assms(3) have len: "2 \<le> length buf" by simp
  from conn_Read_front [OF len] obtain rest' where b: "?buf = b0 # b1 # rest'"
    by blast
  from a have rd: "Read_result c (sent @ [data]) = Datagram (b0 # b1 # rest)" by simp
  show step: "RETRIES s c data bn sent buf n i
      = RETRIES s c data bn (sent @ [data]) ?buf (length data) (i + 1)"
    unfolding RETRIES_reply [OF assms(1,2) rd b] b using a by simp
  {
    assume "i + 1 < unat (retries s) \<and> Write_ok c (sent @ [data])"
    then have "i + 1 < unat (retries s)" "Write_ok c (sent @ [data])" by simp_all
    from RETRIES_first_write [OF this, of "data" bn ?buf "length data"] step
    show "\<exists>more. fst (RETRIES s c data bn sent buf n i) = sent @ [data, data] @ more"
      by simp
  }
  {
    assume "\<not> i + 1 < unat (retries s)"
    from RETRIES_exhausted [OF this] step
    show "RETRIES s c data bn sent buf n i
        = (sent @ [data], ?buf, length data, ReturnWith RetriesExhausted)"
      by simp
  }
qed

theorem unknown_opcode_reply_witness:
  "RETRIES (NewTFTPServer []) \<lparr>Dial_ok = True, Write_ok = \<lambda>sent. True,
       Read_result = \<lambda>sent. if length sent = 1 then Datagram [0, 9, 0, 0] else ReadError\<rparr>
     [0, 3, 0, 1] 1 [] (replicate 516 0) 516 0
   = ([[0, 3, 0, 1], [0, 3, 0, 1]], [0, 9, 0, 0] @ replicate 512 0, 4, ReturnWith ReadFailed)"
proof -
  let ?s = "NewTFTPServer []"
  let ?c = "\<lparr>Dial_ok = True, Write_ok = \<lambda>sent. True,
       Read_result = \<lambda>sent. if length sent = 1 then Datagram [0, 9, 0, 0] else ReadError\<rparr>"
  let ?d = "[0, 3, 0, 1] :: bytes"
  let ?buf1 = "[0, 9, 0, 0] @ replicate 512 (0 :: byte)"
  have buf1: "conn_Read (replicate 516 0) [0, 9, 0, 0] = ?buf1"
    by (simp add: conn_Read_def)
  have op: "Uint16 0 9 \<noteq> AcknowledgmentOp" "Uint16 0 9 \<noteq> ErrorOp"
    by (simp_all add: Uint16_def)
  have "RETRIES ?s ?c ?d 1 [] (replicate 516 0) 516 0
      = RETRIES ?s ?c ?d 1 [?d] ?buf1 4 (Suc 0)"
    using unknown_opcode_reply [of 0 ?s ?c "[]" "replicate 516 0" ?d 1 516] buf1 op
    by (simp add: Suc4)
  also have "\<dots> = ([?d, ?d], ?buf1, 4, ReturnWith ReadFailed)"
    using unknown_opcode_reply [of "Suc 0" ?s ?c "[?d]" ?buf1 ?d 1 4]
    by (simp add: Suc4)
  finally show ?thesis .
qed

text \<open>
  The claim as stated fails: the four bytes 0, 9, 0, 0 decode neither as an
  Acknowledgment nor as an Error, by themselves or in the reply buffer, and after them
  the session writes block 1 a second time (where the client then makes the read fail).
\<close>

theorem unknown_opcode_reply_counterexample:
  "Acknowledgment_UnmarshalBinary [0, 9, 0, 0] = Inl InvalidAcknowledgment
   \<and> Err_UnmarshalBinary [0, 9, 0, 0] = Inl InvalidError
   \<and> Acknowledgment_UnmarshalBinary (conn_Read (replicate 516 0) [0, 9, 0, 0])
       = Inl InvalidAcknowledgment
   \<and> Err_UnmarshalBinary (conn_Read (replicate 516 0) [0, 9, 0, 0]) = Inl InvalidError
   \<and> handle (NewTFTPServer []) \<lparr>Dial_ok = True, Write_ok = \<lambda>sent. True,
         Read_result = \<lambda>sent. if length sent = 1 then Datagram [0, 9, 0, 0] else ReadError\<rparr>
     = ([[0, 3, 0, 1], [0, 3, 0, 1]], ReadFailed)"
proof -
  let ?s = "NewTFTPServer []"
  let ?c = "\<lparr>Dial_ok = True, Write_ok = \<lambda>sent. True,
       Read_result = \<lambda>sent. if length sent = 1 then Datagram [0, 9, 0, 0] else ReadError\<rparr>"
  let ?d = "[0, 3, 0, 1] :: bytes"
  let ?buf1 = "[0, 9, 0, 0] @ replicate 512 (0 :: byte)"
  have buf1: "conn_Read (replicate 516 0) [0, 9, 0, 0] = ?buf1"
    by (simp add: conn_Read_def)
  have raw: "Acknowledgment_UnmarshalBinary [0, 9, 0, 0] = Inl InvalidAcknowledgment"
    "Err_UnmarshalBinary [0, 9, 0, 0] = Inl InvalidError"
    by (simp_all add: Acknowledgment_UnmarshalBinary_def Err_UnmarshalBinary_def Uint16_def)
  have dec: "Acknowledgment_UnmarshalBinary ?buf1 = Inl InvalidAcknowledgment"
    "Err_UnmarshalBinary ?buf1 = Inl InvalidError"
    by (simp_all add: Acknowledgment_UnmarshalBinary_def Err_UnmarshalBinary_def Uint16_def)
  have m: "Data_MarshalBinary \<lparr>BlockNum = 0, Payload = []\<rparr>
             = Inr (\<lparr>BlockNum = 1, Payload = []\<rparr>, ?d)"
    by (simp add: Data_MarshalBinary_eq PutUint16_def)
  have "RETRIES ?s ?c ?d 1 [] (replicate 516 0) 516 0
      = RETRIES ?s ?c ?d 1 [?d] ?buf1 4 (Suc 0)"
    using RETRIES_undecodable [of 0 ?s ?c "[]" ?d "[0, 9, 0, 0]" "replicate 516 0" _ _ 1 516]
      buf1 dec
    by (simp add: Suc4)
  also have "\<dots> = ([?d, ?d], ?buf1, 4, ReturnWith ReadFailed)"
    using RETRIES_read_failed [of "Suc 0" ?s ?c "[?d]" ?d 1 ?buf1 4]
    by (simp add: Suc4)
  finally have r: "RETRIES ?s ?c ?d (BlockNum \<lparr>BlockNum = 1, Payload = []\<rparr>) []
      (replicate 516 0) 516 0 = ([?d, ?d], ?buf1, 4, ReturnWith ReadFailed)"
    by simp
  have "handle ?s ?c = ([?d, ?d], ReadFailed)"
    using NEXT_PACKET_step [OF m r] by (simp add: handle_def NewTFTPServer_def)
  with buf1 raw dec show ?thesis by simp
qed

text \<open>
  A reply that carries the Acknowledgment or the Error opcode is decoded from the whole
  reply buffer, the bytes of the reply followed by what the buffer held before, so the
  same bytes can be accepted or not. The two bytes 0, 5 alone are no Error packet, but
  in the still zeroed buffer of a new session they decode as one, and the session ends.
\<close>

lemma truncated_Error_reply:
  "Err_UnmarshalBinary [0, 5] = Inl EOF
   \<and> handle (NewTFTPServer []) \<lparr>Dial_ok = True, Write_ok = \<lambda>sent. True,
         Read_result = \<lambda>sent. Datagram [0, 5]\<rparr>
     = ([[0, 3, 0, 1]], PeerError)"
proof -
  let ?s = "NewTFTPServer []"
  let ?c = "\<lparr>Dial_ok = True, Write_ok = \<lambda>sent. True, Read_result = \<lambda>sent. Datagram [0, 5]\<rparr>"
  let ?d = "[0, 3, 0, 1] :: bytes"
  let ?buf1 = "[0, 5] @ replicate 514 (0 :: byte)"
  have buf1: "conn_Read (replicate 516 0) [0, 5] = 0 # 5 # replicate 514 0"
    by (simp add: conn_Read_def)
  have z: "replicate 514 (0 :: byte) = 0 # 0 # 0 # replicate 511 0"
    by (simp add: replicate_Suc [symmetric] del: replicate_Suc)
  have dec: "Err_UnmarshalBinary (0 # 5 # replicate 514 0) = Inr \<lparr>Code = 0, Message = []\<rparr>"
    unfolding z by (simp add: Err_UnmarshalBinary_def Uint16_def ReadString_def TrimRight0_def)
  have op: "Uint16 0 5 = ErrorOp"
    by (simp add: Uint16_def)
  have m: "Data_MarshalBinary \<lparr>BlockNum = 0, Payload = []\<rparr>
             = Inr (\<lparr>BlockNum = 1, Payload = []\<rparr>, ?d)"
    by (simp add: Data_MarshalBinary_eq PutUint16_def)
  have r: "RETRIES ?s ?c ?d (BlockNum \<lparr>BlockNum = 1, Payload = []\<rparr>) [] (replicate 516 0) 516 0
      = ([?d], 0 # 5 # replicate 514 0, 4, ReturnWith PeerError)"
    using RETRIES_reply [of 0 ?s ?c "[]" ?d "[0, 5]" "replicate 516 0" 0 5 "replicate 514 0" 1 516]
      buf1 dec op
    by (simp add: Suc4)
  have "handle ?s ?c = ([?d], PeerError)"
    using NEXT_PACKET_step [OF m r] by (simp add: handle_def NewTFTPServer_def)
  moreover have "Err_UnmarshalBinary [0, 5] = Inl EOF"
    by (simp add: Err_UnmarshalBinary_def Uint16_def)
  ultimately show ?thesis by simp
qed

subsection \<open>A transfer to a client that acknowledges every block\<close>

lemma NEXT_PACKET_acked_step:
  assumes r: "retries s \<noteq> 0" and w: "\<And>h. Write_ok c h"
    and a: "\<And>h bn pl. Read_result c (h @ [PutUint16 DataOp @ PutUint16 bn @ pl])
                = Datagram (PutUint16 AcknowledgmentOp @ PutUint16 bn)"
    and len: "4 \<le> length buf"
  shows "NEXT_PACKET s c \<lparr>BlockNum = bn, Payload = p\<rparr> sent buf DatagramSize =
         NEXT_PACKET s c \<lparr>BlockNum = bn + 1, Payload = drop BlockSize p\<rparr>
           (sent @ [PutUint16 DataOp @ PutUint16 (bn + 1) @ take BlockSize p])
           (PutUint16 AcknowledgmentOp @ PutUint16 (bn + 1) @ drop 4 buf)
           (length (PutUint16 DataOp @ PutUint16 (bn + 1) @ take BlockSize p))"
proof -
  let ?pkt = "PutUint16 DataOp @ PutUint16 (bn + 1) @ take BlockSize p"
  let ?d' = "\<lparr>BlockNum = bn + 1, Payload = drop BlockSize p\<rparr>"
  have m: "Data_MarshalBinary \<lparr>BlockNum = bn, Payload = p\<rparr> = Inr (?d', ?pkt)"
    by (simp add: Data_MarshalBinary_eq)
  from r have pos: "0 < unat (retries s)"
    by (simp add: unat_gt_0)
  have "RETRIES s c ?pkt (BlockNum ?d') sent buf DatagramSize 0 =
      (sent @ [?pkt], PutUint16 AcknowledgmentOp @ PutUint16 (bn + 1) @ drop 4 buf, length ?pkt,
       ContinueNextPacket)"
    using RETRIES_ack [OF pos w a len, where sent = sent and k = "bn + 1"
        and pl1 = "take BlockSize p" and bn = "bn + 1" and n = DatagramSize]
    by simp
  from NEXT_PACKET_step [OF m this] show ?thesis
    by (simp only: flow.case)
qed

lemma NEXT_PACKET_acked:
  assumes r: "retries s \<noteq> 0" and w: "\<And>h. Write_ok c h"
    and a: "\<And>h bn pl. Read_result c (h @ [PutUint16 DataOp @ PutUint16 bn @ pl])
                = Datagram (PutUint16 AcknowledgmentOp @ PutUint16 bn)"
  shows "4 \<le> length buf \<Longrightarrow> length p div 512 = m \<Longrightarrow>
     NEXT_PACKET s c \<lparr>BlockNum = bn, Payload = p\<rparr> sent buf DatagramSize =
       (sent @ map (\<lambda>k. PutUint16 DataOp @ PutUint16 (bn + of_nat (k + 1))
                         @ take 512 (drop (512 * k) p)) [0..<m + 1],
        Completed (bn + of_nat (m + 1)))"
proof (induction m arbitrary: p bn sent buf)
  case 0
  then have short: "length p < 512" by (simp add: div_eq_0_iff)
  then have "length (PutUint16 DataOp @ PutUint16 (bn + 1) @ take BlockSize p) \<noteq> DatagramSize"
    by simp
  from NEXT_PACKET_done [OF this] NEXT_PACKET_acked_step [OF r w a 0(1), of bn p sent]
  show ?case
    by simp
next
  case (Suc m)
  then have long: "512 \<le> length p" by (cases "length p < 512") auto
  then have n: "length (PutUint16 DataOp @ PutUint16 (bn + 1) @ take BlockSize p) = DatagramSize"
    by simp
  let ?buf = "PutUint16 AcknowledgmentOp @ PutUint16 (bn + 1) @ drop 4 buf"
  have len: "4 \<le> length ?buf" by simp
  have "length p = 512 + length (drop 512 p)" using long by simp
  then have "length p div 512 = Suc (length (drop 512 p) div 512)"
    by (metis div_add_self1 zero_neq_numeral Suc_eq_plus1)
  with Suc.prems(2) have d: "length (drop 512 p) div 512 = m" by simp
  let ?f = "\<lambda>k. PutUint16 DataOp @ PutUint16 (bn + of_nat (k + 1)) @ take 512 (drop (512 * k) p)"
  let ?g = "\<lambda>k. PutUint16 DataOp @ PutUint16 (bn + 1 + of_nat (k + 1))
                   @ take 512 (drop (512 * k) (drop 512 p))"
  let ?pkt = "PutUint16 DataOp @ PutUint16 (bn + 1) @ take 512 p"
  have fS: "\<And>k. ?f (Suc k) = ?g k"
    by (simp add: algebra_simps)
  have f0: "?f 0 = ?pkt"
    by simp
  have "map ?f [0..<Suc (m + 1)] = ?f 0 # map (\<lambda>k. ?f (Suc k)) [0..<m + 1]"
    by (rule map_upt_Suc)
  then have maps: "map ?f [0..<Suc (m + 1)] = ?pkt # map ?g [0..<m + 1]"
    by (simp only: fS f0)
  have bs: "BlockSize = 512"
    by simp
  have idx: "Suc m + 1 = Suc (m + 1)"
    by simp
  have e1: "(sent @ [?pkt]) @ map ?g [0..<m + 1] = sent @ map ?f [0..<Suc m + 1]"
    by (simp only: idx maps append_assoc append_Cons append_Nil)
  have e2: "bn + 1 + of_nat (m + 1) = bn + of_nat (Suc m + 1)"
    by simp
  have "NEXT_PACKET s c \<lparr>BlockNum = bn, Payload = p\<rparr> sent buf DatagramSize =
        NEXT_PACKET s c \<lparr>BlockNum = bn + 1, Payload = drop 512 p\<rparr> (sent @ [?pkt]) ?buf DatagramSize"
    using NEXT_PACKET_acked_step [OF r w a Suc.prems(1), of bn p sent, unfolded n]
    by (simp only: bs)
  also have "\<dots> = ((sent @ [?pkt]) @ map ?g [0..<m + 1], Completed (bn + 1 + of_nat (m + 1)))"
    by (rule Suc.IH [OF len d])
  finally show ?case
    by (simp only: e1 e2)
qed

text \<open>
  C1. Let the server have a retry budget of at least one (\<^verbatim>\<open>NewTFTPServer\<close> sets 10), let
  the dial and every write succeed, and let the client answer every Data packet with
  the Acknowledgment of its block number. Then for a payload of length \<^verbatim>\<open>L\<close> the session
  sends exactly \<^verbatim>\<open>L div 512 + 1\<close> Data packets and completes: packet \<^verbatim>\<open>k\<close> (from 0) has
  the block number \<^verbatim>\<open>k + 1\<close> (modulo 65536) and the bytes \<^verbatim>\<open>512 k\<close> to \<^verbatim>\<open>512 k + 511\<close> of
  the payload, the last packet has \<^verbatim>\<open>L mod 512\<close> bytes of payload, and when 512
  divides \<^verbatim>\<open>L\<close> (also for \<^verbatim>\<open>L = 0\<close>) the last packet is the header alone, the empty
  block that ends the transfer.
\<close>

theorem acknowledged_session:
  assumes "retries s \<noteq> 0" and "Dial_ok c" and "\<And>sent. Write_ok c sent"
    and "\<And>sent bn pl. \<exists>ack. Acknowledgment_MarshalBinary \<lparr>AckBlockNum = bn\<rparr> = Inr ack
            \<and> Read_result c (sent @ [PutUint16 DataOp @ PutUint16 bn @ pl]) = Datagram ack"
  shows "\<exists>sent. handle s c = (sent, Completed (of_nat (length (payload s) div 512 + 1)))
       \<and> sent = map (\<lambda>k. PutUint16 DataOp @ PutUint16 (of_nat (k + 1))
                            @ take 512 (drop (512 * k) (payload s)))
                     [0..<length (payload s) div 512 + 1]
       \<and> length sent = length (payload s) div 512 + 1
       \<and> length (last sent) = 4 + length (payload s) mod 512
       \<and> (512 dvd length (payload s) \<longrightarrow>
            last sent = PutUint16 DataOp @ PutUint16 (of_nat (length sent)))"
proof -
  let ?p = "payload s"
  let ?m = "length ?p div 512"
  let ?f = "\<lambda>k. PutUint16 DataOp @ PutUint16 (of_nat (k + 1)) @ take 512 (drop (512 * k) ?p)"
  let ?sent = "map ?f [0..<?m + 1]"
  have a: "\<And>h bn pl. Read_result c (h @ [PutUint16 DataOp @ PutUint16 bn @ pl])
                = Datagram (PutUint16 AcknowledgmentOp @ PutUint16 bn)"
    using assms(4) by (fastforce simp: Acknowledgment_MarshalBinary_def)
  have "NEXT_PACKET s c \<lparr>BlockNum = 0, Payload = ?p\<rparr> [] (replicate DatagramSize 0) DatagramSize
      = ([] @ map (\<lambda>k. PutUint16 DataOp @ PutUint16 (0 + of_nat (k + 1))
                         @ take 512 (drop (512 * k) ?p)) [0..<?m + 1],
         Completed (0 + of_nat (?m + 1)))"
    by (rule NEXT_PACKET_acked [OF assms(1) assms(3) a]) simp_all
  then have h: "handle s c = (?sent, Completed (of_nat (?m + 1)))"
    using assms(2) by (simp add: handle_def)
  have len: "length ?sent = ?m + 1"
    by simp
  have last: "last ?sent = ?f ?m"
    by (simp add: last_map)
  have "length (take 512 (drop (512 * ?m) ?p)) = length ?p mod 512"
    by (simp add: minus_mult_div_eq_mod min_def)
  with last have ll: "length (last ?sent) = 4 + length ?p mod 512"
    by simp
  have "last ?sent = PutUint16 DataOp @ PutUint16 (of_nat (length ?sent))"
    if "512 dvd length ?p"
  proof -
    from that have "512 * ?m = length ?p" by simp
    then have "drop (512 * ?m) ?p = []" by simp
    with last len show ?thesis by simp
  qed
  with h len ll show ?thesis
    by blast
qed

text \<open>
  A payload of 512 bytes goes out as a full block 1 and an empty block 2.
\<close>

theorem acknowledged_session_witness:
  "handle (NewTFTPServer (replicate 512 0))
      \<lparr>Dial_ok = True, Write_ok = \<lambda>sent. True,
       Read_result = \<lambda>sent. Datagram ([0, 4] @ take 2 (drop 2 (last sent)))\<rparr>
   = ([[0, 3, 0, 1] @ replicate 512 0, [0, 3, 0, 2]], Completed 2)"
proof -
  let ?s = "NewTFTPServer (replicate 512 0)"
  let ?c = "\<lparr>Dial_ok = True, Write_ok = \<lambda>sent. True,
       Read_result = \<lambda>sent. Datagram ([0, 4] @ take 2 (drop 2 (last sent)))\<rparr>"
  have r: "retries ?s \<noteq> 0"
    by (simp add: NewTFTPServer_def)
  have a: "\<And>sent bn pl. \<exists>ack. Acknowledgment_MarshalBinary \<lparr>AckBlockNum = bn\<rparr> = Inr ack
            \<and> Read_result ?c (sent @ [PutUint16 DataOp @ PutUint16 bn @ pl]) = Datagram ack"
    by (simp add: Acknowledgment_MarshalBinary_def PutUint16_def)
  have p: "payload ?s = replicate 512 0"
    by (simp add: NewTFTPServer_def)
  have u: "[0..<512 div 512 + 1] = [0, Suc 0]"
    by (simp add: upt_rec)
  from acknowledged_session [of ?s ?c, OF r _ _ a]
  show ?thesis
    unfolding p by (simp add: u PutUint16_def)
qed

subsection \<open>The block numbers of a session\<close>

text \<open>
  The block number that a packet carries, as the program's own decoder of Data packets
  reads it from the bytes of the packet (a slice without spare capacity).
\<close>

definition wire_BlockNum :: "bytes \<Rightarrow> uint16 option" where
  "wire_BlockNum p =
     (case Data_UnmarshalBinary \<lparr>elems = p, spare = []\<rparr> of
        Return (Inr d) \<Rightarrow> Some (BlockNum d)
      | _ \<Rightarrow> None)"

lemma Data_UnmarshalBinary_Data:
  "Data_UnmarshalBinary \<lparr>elems = PutUint16 DataOp @ PutUint16 bn @ pl, spare = []\<rparr>
     = Return (Inr \<lparr>BlockNum = bn, Payload = pl\<rparr>)"
proof -
  obtain b0 b1 where op: "PutUint16 DataOp = [b0, b1]" by (simp add: PutUint16_def)
  obtain b2 b3 where n: "PutUint16 bn = [b2, b3]" by (simp add: PutUint16_def)
  show ?thesis
    using Uint16_PutUint16 [OF op] Uint16_PutUint16 [OF n]
    by (simp add: Data_UnmarshalBinary_def op n)
qed

lemma wire_BlockNum_Data [simp]:
  "wire_BlockNum (PutUint16 DataOp @ PutUint16 bn @ pl) = Some bn"
  by (simp add: wire_BlockNum_def Data_UnmarshalBinary_Data)

lemma NEXT_PACKET_numbers:
  "NEXT_PACKET s c dataM sent buf n = (sent', out) \<Longrightarrow>
   \<exists>ext m. sent' = sent @ ext
      \<and> remdups_adj (map wire_BlockNum ext)
          = map (\<lambda>k. Some (BlockNum dataM + of_nat k)) [1..<Suc m]"
proof (induction "if n = DatagramSize then Suc (length (Payload dataM)) else 0"
        arbitrary: dataM sent buf n rule: less_induct)
  case less
  show ?case
  proof (cases "n = DatagramSize")
    case False
    with less.prems have "sent' = sent @ []"
      by (simp add: NEXT_PACKET_done)
    moreover have "remdups_adj (map wire_BlockNum [])
          = map (\<lambda>k. Some (BlockNum dataM + of_nat k)) [1..<Suc 0]"
      by simp
    ultimately show ?thesis by blast
  next
    case True
    let ?bn = "BlockNum dataM + 1"
    let ?d' = "\<lparr>BlockNum = ?bn, Payload = drop BlockSize (Payload dataM)\<rparr>"
    let ?pkt = "PutUint16 DataOp @ PutUint16 ?bn @ take BlockSize (Payload dataM)"
    have m: "Data_MarshalBinary dataM = Inr (?d', ?pkt)"
      by (rule Data_MarshalBinary_eq)
    obtain sent1 buf1 n1 fl where
      r: "RETRIES s c ?pkt (BlockNum ?d') sent buf DatagramSize 0 = (sent1, buf1, n1, fl)"
      by (metis prod_cases4)
    from RETRIES_shape [OF r] obtain k where
      k: "sent1 = sent @ replicate k ?pkt" "fl = ContinueNextPacket \<longrightarrow> 0 < k \<and> n1 = length ?pkt"
      by blast
    have one: "remdups_adj (map wire_BlockNum (replicate k ?pkt)) = (if k = 0 then [] else [Some ?bn])"
      by (simp add: remdups_adj_replicate)
    have step: "NEXT_PACKET s c dataM sent buf n =
       (case fl of ContinueNextPacket \<Rightarrow> NEXT_PACKET s c ?d' sent1 buf1 n1
        | ReturnWith out \<Rightarrow> (sent1, out))"
      unfolding True by (rule NEXT_PACKET_step [OF m r])
    show ?thesis
    proof (cases fl)
      case (ReturnWith out')
      with step less.prems k(1) have "sent' = sent @ replicate k ?pkt" by simp
      moreover have "remdups_adj (map wire_BlockNum (replicate k ?pkt))
          = map (\<lambda>j. Some (BlockNum dataM + of_nat j)) [1..<Suc (if k = 0 then 0 else 1)]"
        unfolding one by simp
      ultimately show ?thesis by blast
    next
      case ContinueNextPacket
      with k have kpos: "0 < k" and n1: "n1 = length ?pkt" by simp_all
      from ContinueNextPacket step less.prems
      have rec: "NEXT_PACKET s c ?d' sent1 buf1 n1 = (sent', out)" by simp
      have "(if n1 = DatagramSize then Suc (length (Payload ?d')) else 0)
          < (if n = DatagramSize then Suc (length (Payload dataM)) else 0)"
        using True n1 by (auto simp: min_def split: if_splits)
      from less.hyps [OF this rec] obtain ext m where
        ext: "sent' = sent1 @ ext"
          "remdups_adj (map wire_BlockNum ext) = map (\<lambda>j. Some (?bn + of_nat j)) [1..<Suc m]"
        by auto
      let ?xs = "map wire_BlockNum (replicate k ?pkt)"
      let ?ys = "map wire_BlockNum ext"
      have hd: "?ys = [] \<or> hd ?ys \<noteq> Some ?bn"
      proof (cases m)
        case 0
        with ext(2) show ?thesis by simp
      next
        case (Suc m')
        then have "[1..<Suc m] = 1 # [Suc 1..<Suc m]"
          by (intro upt_conv_Cons) simp
        with ext(2) have "remdups_adj ?ys
            = Some (?bn + of_nat 1) # map (\<lambda>j. Some (?bn + of_nat j)) [Suc 1..<Suc m]"
          by (simp only: list.map)
        then have "hd (remdups_adj ?ys) = Some (?bn + 1)"
          by simp
        then have "hd ?ys = Some (?bn + 1)"
          by (simp add: hd_remdups_adj)
        then show ?thesis by simp
      qed
      have "last ?xs = Some ?bn" using kpos by (cases k) auto
      with hd have "?xs = [] \<or> ?ys = [] \<or> last ?xs \<noteq> hd ?ys" by auto
      then have "remdups_adj (?xs @ ?ys) = remdups_adj ?xs @ remdups_adj ?ys"
        by (rule remdups_adj_append')
      also have "\<dots> = Some ?bn # map (\<lambda>j. Some (?bn + of_nat j)) [1..<Suc m]"
        using one kpos ext(2) by simp
      also have "\<dots> = map (\<lambda>j. Some (BlockNum dataM + of_nat j)) [1..<Suc (Suc m)]"
      proof -
        have "[1..<Suc (Suc m)] = 1 # [Suc 1..<Suc (Suc m)]"
          by (intro upt_conv_Cons) simp
        also have "[Suc 1..<Suc (Suc m)] = map Suc [1..<Suc m]"
          by (simp only: map_Suc_upt)
        finally show ?thesis by (simp add: comp_def algebra_simps del: upt_Suc)
      qed
      finally have "remdups_adj (map wire_BlockNum (replicate k ?pkt @ ext))
          = map (\<lambda>j. Some (BlockNum dataM + of_nat j)) [1..<Suc (Suc m)]"
        by simp
      moreover have "sent' = sent @ (replicate k ?pkt @ ext)"
        using ext(1) k(1) by simp
      ultimately show ?thesis by blast
    qed
  qed
qed

text \<open>
  C8. In every session, whatever the network does, every packet written is a Data
  packet, and the block numbers of the packets written, with immediate repetitions
  (the retransmissions) removed, are 1, 2, ..., \<^verbatim>\<open>m\<close> for some \<^verbatim>\<open>m\<close>, each taken modulo
  65536: they start at 1 and go up by one without a gap. This is because the
  counter of a session starts at 0 and every encoding of a Data packet first adds one to
  the counter and then writes the new value into the packet.
\<close>

theorem block_numbers:
  "(\<exists>m. remdups_adj (map wire_BlockNum (fst (handle s c))) = map (\<lambda>k. Some (of_nat k)) [1..<Suc m])
   \<and> (\<exists>d' pkt. Data_MarshalBinary d = Inr (d', pkt)
         \<and> BlockNum d' = BlockNum d + 1 \<and> wire_BlockNum pkt = Some (BlockNum d + 1))"
proof
  show "\<exists>m. remdups_adj (map wire_BlockNum (fst (handle s c))) = map (\<lambda>k. Some (of_nat k)) [1..<Suc m]"
  proof (cases "Dial_ok c")
    case False
    then have "remdups_adj (map wire_BlockNum (fst (handle s c)))
        = map (\<lambda>k. Some (of_nat k)) [1..<Suc 0]"
      by (simp add: handle_def)
    then show ?thesis ..
  next
    case True
    obtain sent' out where
      r: "NEXT_PACKET s c \<lparr>BlockNum = 0, Payload = payload s\<rparr> [] (replicate DatagramSize 0)
            DatagramSize = (sent', out)"
      by (metis surj_pair)
    from NEXT_PACKET_numbers [OF r] obtain m where
      "remdups_adj (map wire_BlockNum sent') = map (\<lambda>k. Some (of_nat k)) [1..<Suc m]"
      by auto
    with True r have "remdups_adj (map wire_BlockNum (fst (handle s c)))
        = map (\<lambda>k. Some (of_nat k)) [1..<Suc m]"
      by (simp add: handle_def)
    then show ?thesis ..
  qed
next
  show "\<exists>d' pkt. Data_MarshalBinary d = Inr (d', pkt)
         \<and> BlockNum d' = BlockNum d + 1 \<and> wire_BlockNum pkt = Some (BlockNum d + 1)"
    by (simp add: Data_MarshalBinary_eq)
qed

end
